theory Spec2Isabelle
  imports Main "HOL-Library.AList" "HOL-Library.Word"
begin

section \<open>The program representation read by the pass\<close>

text \<open>
  The pass of \<^verbatim>\<open>X86PreserveNoneFuncList.cpp\<close> reads a small part of the
  intermediate representation. A \<^verbatim>\<open>Function*\<close> is the position of the function in
  the module's function list. A \<^verbatim>\<open>MachineFunction*\<close> is identified with the
  reference of the function it belongs to (\<^verbatim>\<open>MF->getFunction()\<close>), and the null
  pointer is \<open>None\<close>.
\<close>

type_synonym fref = nat

text \<open>
  A user of a function value. A call instruction (\<^verbatim>\<open>CallBase\<close>) sits in exactly one
  function, its caller, and uses the function either as the called operand or as a data
  operand (an argument). Every other user (a store, a constant initialiser, a cast) is
  \<open>OtherUser\<close>.
\<close>

datatype Operand = CalledOperand | ArgOperand

datatype User = CallBase (getCaller: fref) (operand: Operand) | OtherUser

datatype CallingConv = C | Fast | PreserveMost | PreserveNone

text \<open>
  The three linkage predicates are the results of \<^verbatim>\<open>GlobalValue::isWeakForLinker\<close>,
  \<^verbatim>\<open>hasLocalLinkage\<close> and \<^verbatim>\<open>isDeclaration\<close>, which the pass only calls.
\<close>

record Function =
  getName :: string
  Attrs :: "(string \<times> string) list"
  getCallingConv :: CallingConv
  isWeakForLinker :: bool
  hasLocalLinkage :: bool
  isDeclaration :: bool
  users :: "User list"

type_synonym Module = "Function list"

text \<open>The functions for which \<^verbatim>\<open>MachineModuleInfo\<close> holds a machine function.\<close>

type_synonym MachineModuleInfo = "fref set"

definition hasFnAttribute :: "string \<Rightarrow> Function \<Rightarrow> bool" where
  "hasFnAttribute k F = (map_of (Attrs F) k \<noteq> None)"

definition addFnAttr :: "string \<Rightarrow> string \<Rightarrow> Function \<Rightarrow> Function" where
  "addFnAttr k v F = F\<lparr>Attrs := AList.update k v (Attrs F)\<rparr>"

definition getMachineFunction :: "MachineModuleInfo \<Rightarrow> fref \<Rightarrow> fref option" where
  "getMachineFunction MMI f = (if f \<in> MMI then Some f else None)"

definition isa_CallBase :: "User \<Rightarrow> bool" where
  "isa_CallBase U = (case U of CallBase c k \<Rightarrow> True | OtherUser \<Rightarrow> False)"

section \<open>The propagation engine: \<^verbatim>\<open>X86PreserveNoneInfectionPass::runOnModule\<close>\<close>

text \<open>The two lambdas of \<^verbatim>\<open>runOnModule\<close>.\<close>

definition isInfectableFunc :: "Function \<Rightarrow> bool" where
  "isInfectableFunc F = (\<not> isWeakForLinker F \<and> hasLocalLinkage F \<and> \<not> isDeclaration F)"

definition hasPreserveNoneAttr :: "Function \<Rightarrow> bool" where
  "hasPreserveNoneAttr F =
     (hasFnAttribute ''no_callee_saved_registers'' F \<or>
      getCallingConv F = PreserveNone \<or>
      hasFnAttribute ''preserve_none'' F)"

text \<open>
  The ways in which the traversal leaves the defined behaviour of C++:
  \<open>NullDeref\<close> is \<^verbatim>\<open>MF->getFunction()\<close> on a null worklist element,
  \<open>BadCast\<close> is \<^verbatim>\<open>cast<CallBase>(U)\<close> on a user that is no call instruction.
  \<open>Dangling\<close> is a reference to a function outside the module; the representation
  never holds one, and the model reports it instead of reading out of range.
\<close>

datatype error = NullDeref | BadCast | Dangling

text \<open>
  First loop: the seeds, in module order. A function without a machine function is
  skipped; one that has the attribute is pushed.
\<close>

definition seeds :: "MachineModuleInfo \<Rightarrow> Module \<Rightarrow> fref option list" where
  "seeds MMI M =
     map Some (filter (\<lambda>f. getMachineFunction MMI f \<noteq> None \<and> hasPreserveNoneAttr (M ! f))
                 [0..<length M])"

text \<open>
  The loop over \<^verbatim>\<open>F.users()\<close> (lines 166 to 175): the elements pushed to the back
  of the worklist, in order. The caller's machine function is looked up and pushed
  without a null check; \<^verbatim>\<open>VisitedMF\<close> never holds the null pointer.
\<close>

fun push_callers ::
  "MachineModuleInfo \<Rightarrow> Module \<Rightarrow> fref list \<Rightarrow> User list \<Rightarrow> error + fref option list" where
  "push_callers MMI M Visited [] = Inr []"
| "push_callers MMI M Visited (OtherUser # Us) = Inl BadCast"
| "push_callers MMI M Visited (CallBase Caller k # Us) =
     (if Caller \<ge> length M then Inl Dangling
      else
        (let CallerMF = getMachineFunction MMI Caller;
             pushed = (if (case CallerMF of None \<Rightarrow> True | Some m \<Rightarrow> m \<notin> set Visited)
                          \<and> \<not> hasPreserveNoneAttr (M ! Caller)
                       then [CallerMF] else [])
         in case push_callers MMI M Visited Us of
              Inl e \<Rightarrow> Inl e
            | Inr rest \<Rightarrow> Inr (pushed @ rest)))"

text \<open>
  The worklist loop (lines 150 to 183). The state is the module, \<^verbatim>\<open>VisitedMF\<close>
  (kept in insertion order) and the statistic \<^verbatim>\<open>NumPreserveNoneInfected\<close>, the
  64-bit counter of a build that keeps statistics.
\<close>

type_synonym infect_state = "Module \<times> fref list \<times> 64 word"

function MFWorkList_loop ::
  "MachineModuleInfo \<Rightarrow> infect_state \<Rightarrow> fref option list \<Rightarrow> error + infect_state" where
  "MFWorkList_loop MMI (M, Visited, Num) [] = Inr (M, Visited, Num)"
| "MFWorkList_loop MMI (M, Visited, Num) (None # WL) = Inl NullDeref"
| "MFWorkList_loop MMI (M, Visited, Num) (Some MF # WL) =
     (if MF \<ge> length M then Inl Dangling
      else if MF \<in> set Visited then MFWorkList_loop MMI (M, Visited, Num) WL
      else if \<not> hasPreserveNoneAttr (M ! MF) \<and>
              (\<not> isInfectableFunc (M ! MF) \<or> (\<exists>U \<in> set (users (M ! MF)). \<not> isa_CallBase U))
      then MFWorkList_loop MMI (M, Visited @ [MF], Num) WL
      else
        (case push_callers MMI M (Visited @ [MF]) (users (M ! MF)) of
           Inl e \<Rightarrow> Inl e
         | Inr pushed \<Rightarrow>
             if \<not> hasPreserveNoneAttr (M ! MF)
             then MFWorkList_loop MMI
                    (M[MF := addFnAttr ''no_callee_saved_registers'' ''1'' (M ! MF)],
                     Visited @ [MF], Num + 1) (WL @ pushed)
             else MFWorkList_loop MMI (M, Visited @ [MF], Num) (WL @ pushed)))"
  by pat_completeness auto

termination
proof -
  have dec: "card ({..<n} - insert MF (set V)) < card ({..<n} - set V)"
    if "MF < n" "MF \<notin> set V" for n MF :: nat and V :: "nat list"
  proof -
    have e: "{..<n} - insert MF (set V) = ({..<n} - set V) - {MF}"
      by blast
    have m: "MF \<in> {..<n} - set V"
      using that by simp
    show ?thesis
      unfolding e by (rule card_Diff1_less [OF _ m]) simp
  qed
  show ?thesis
    by (relation "measures
          [\<lambda>(MMI, (M, Visited, Num), WL). card ({..<length M} - set Visited),
           \<lambda>(MMI, (M, Visited, Num), WL). length WL]")
       (simp_all add: dec not_le del: card_Diff_insert)
qed

text \<open>
  \<^verbatim>\<open>runOnModule\<close>: the option \<^verbatim>\<open>x86-preserve-none-infect\<close> and the emptiness
  of the module gate the traversal. The result is read off the statistic, which lives
  for the whole process and is passed in and out.
\<close>

definition runOnModule ::
  "bool \<Rightarrow> MachineModuleInfo \<Rightarrow> 64 word \<Rightarrow> Module \<Rightarrow> error + (bool \<times> Module \<times> 64 word)" where
  "runOnModule PreserveNoneInfect MMI NumPreserveNoneInfected M =
     (if \<not> PreserveNoneInfect then Inr (False, M, NumPreserveNoneInfected)
      else if M = [] then Inr (False, M, NumPreserveNoneInfected)
      else
        (case MFWorkList_loop MMI (M, [], NumPreserveNoneInfected) (seeds MMI M) of
           Inl e \<Rightarrow> Inl e
         | Inr (M', Visited, Num) \<Rightarrow> Inr (Num > 0, M', Num)))"


section \<open>The registry: \<^verbatim>\<open>X86PreserveNonePass\<close>\<close>

text \<open>
  The pass object holds the descriptor \<^verbatim>\<open>FD\<close> and the name set. The constructor
  does not initialise \<^verbatim>\<open>FD\<close>, so its first value is whatever the state holds.
\<close>

record X86PreserveNonePass =
  FD :: int
  FuncNameSet :: "string set"

text \<open>
  What is at the registry path: nothing, a regular file with its content, or something
  else (a directory, a device).
\<close>

datatype file_status = NoFile | RegularFile string | OtherFile

definition exists_file :: "file_status \<Rightarrow> bool" where
  "exists_file file = (file \<noteq> NoFile)"

definition is_regular_file :: "file_status \<Rightarrow> bool" where
  "is_regular_file file = (case file of RegularFile c \<Rightarrow> True | _ \<Rightarrow> False)"

text \<open>Opening with \<^verbatim>\<open>OF_Append\<close> creates a missing file and keeps an existing one.\<close>

definition open_append :: "file_status \<Rightarrow> file_status" where
  "open_append file = (case file of NoFile \<Rightarrow> RegularFile [] | _ \<Rightarrow> file)"

definition append_data :: "file_status \<Rightarrow> string \<Rightarrow> file_status" where
  "append_data file s = (case file of RegularFile c \<Rightarrow> RegularFile (c @ s) | _ \<Rightarrow> file)"

text \<open>
  The registry file as the process of the writer sees it: what is at the path, whether
  the process holds the write lock that \<^verbatim>\<open>fcntl\<close> grants, and the writes the
  process has made to the file, in order, each with the state of the lock at the moment
  of the write.
\<close>

record registry_file =
  status :: file_status
  lock_held :: bool
  writes :: "(string \<times> bool) list"

text \<open>
  The system calls of the writer on the registry file. Opening with
  \<^verbatim>\<open>OF_Append\<close> creates the file where it is missing. Closing a descriptor of the
  file drops the locks the process holds on it.
\<close>

definition open_file :: "registry_file \<Rightarrow> registry_file" where
  "open_file file = file\<lparr>status := open_append (status file)\<rparr>"

definition lock_file :: "registry_file \<Rightarrow> registry_file" where
  "lock_file file = file\<lparr>lock_held := True\<rparr>"

definition unlock_file :: "registry_file \<Rightarrow> registry_file" where
  "unlock_file file = file\<lparr>lock_held := False\<rparr>"

definition write_file :: "string \<Rightarrow> registry_file \<Rightarrow> registry_file" where
  "write_file s file =
     file\<lparr>status := append_data (status file) s, writes := writes file @ [(s, lock_held file)]\<rparr>"

definition close_file :: "registry_file \<Rightarrow> registry_file" where
  "close_file file = file\<lparr>lock_held := False\<rparr>"

text \<open>
  The outcomes of the system calls of one invocation of the writer, in the order in
  which they happen: the \<^verbatim>\<open>raw_fd_ostream\<close> constructor of line 214 (error code
  clear or not), \<^verbatim>\<open>openFileForReadWrite\<close> (the descriptor, or an error), the two
  \<^verbatim>\<open>fcntl\<close> calls that take and release the lock, and the write with which the
  stream of line 234 empties its buffer when it is destroyed.
\<close>

record os_calls =
  raw_fd_ostream_ok :: bool
  openFileForReadWrite :: "int option"
  lock_ok :: bool
  unlock_ok :: bool
  write_ok :: bool

text \<open>
  The stream of line 234 ends the process where its write has failed: its destructor
  calls \<^verbatim>\<open>report_fatal_error\<close>.
\<close>

datatype fatal_error = IOFailure

text \<open>
  \<^verbatim>\<open>WritePreserveNoneList\<close> (lines 188 to 245). The two streams are objects of
  \<^verbatim>\<open>raw_fd_ostream\<close>, whose code is not part of the source file; what they do is
  taken from the support library of LLVM. The stream \<^verbatim>\<open>OS\<close> of line 214 holds a
  descriptor of its own from its construction to the return. A failed
  \<^verbatim>\<open>openFileForReadWrite\<close> leaves \<open>-1\<close> in the descriptor of the pass. The
  stream \<^verbatim>\<open>fds\<close> of line 234 owns the descriptor of the pass and is buffered: the
  insertion of line 235 fills the buffer, and the line reaches the file when the stream
  is destroyed, at the return of line 241 or of line 244, that is, after the attempt to
  release the lock. The destructor writes the buffer, closes the descriptor and, where
  the write has failed, ends the process. Closing a descriptor is taken to succeed. The
  line is taken to be shorter than the buffer of the stream, which has the block size of
  the file; of a longer line the insertion itself writes a first part, and the
  destructor the rest with the newline.
\<close>

definition WritePreserveNoneList ::
  "os_calls \<Rightarrow> X86PreserveNonePass \<Rightarrow> registry_file \<Rightarrow> Function
     \<Rightarrow> fatal_error + (bool \<times> X86PreserveNonePass \<times> registry_file)" where
  "WritePreserveNoneList os P file F =
     (if isDeclaration F then Inr (False, P, file)
      else if getName F \<in> FuncNameSet P then Inr (False, P, file)
      else
        (let P1 = P\<lparr>FuncNameSet := insert (getName F) (FuncNameSet P)\<rparr> in
         if FD P1 = 0 \<and> exists_file (status file) \<and> \<not> is_regular_file (status file)
         then Inr (False, P1, file)
         else if \<not> raw_fd_ostream_ok os then Inr (False, P1, file)
         else
           (let file1 = open_file file in
            case openFileForReadWrite os of
              None \<Rightarrow> Inr (False, P1\<lparr>FD := - 1\<rparr>, close_file file1)
            | Some fd \<Rightarrow>
                (let P2 = P1\<lparr>FD := fd\<rparr>;
                     file2 = open_file file1
                 in if \<not> lock_ok os then Inr (False, P2, close_file (close_file file2))
                    else
                      (let file3 = lock_file file2;
                           buffer = getName F @ [CHR 0x0A];
                           file4 = (if unlock_ok os then unlock_file file3 else file3)
                       in if \<not> write_ok os then Inl IOFailure
                          else Inr (unlock_ok os, P2,
                                    close_file (close_file (write_file buffer file4))))))))"

text \<open>
  The per-function hook in write mode, called for one function after the other; each
  call has its own system call outcomes. Nothing is called after the process has ended.
\<close>

fun run_writes ::
  "(os_calls \<times> Function) list \<Rightarrow> X86PreserveNonePass \<Rightarrow> registry_file
     \<Rightarrow> fatal_error + (bool list \<times> X86PreserveNonePass \<times> registry_file)" where
  "run_writes [] P file = Inr ([], P, file)"
| "run_writes ((os, F) # calls) P file =
     (case WritePreserveNoneList os P file F of
        Inl e \<Rightarrow> Inl e
      | Inr (r, P', file') \<Rightarrow>
          (case run_writes calls P' file' of
             Inl e \<Rightarrow> Inl e
           | Inr (rs, P'', file'') \<Rightarrow> Inr (r # rs, P'', file'')))"

text \<open>
  Modelled from the spec: \<^verbatim>\<open>StringRef::split\<close> and \<^verbatim>\<open>StringRef::trim\<close>, whose
  code is not part of the source file. The loader calls \<^verbatim>\<open>split(lines, "\n")\<close>, which
  cuts at every newline and keeps empty pieces, and \<^verbatim>\<open>trim()\<close>, which removes the
  characters space, tab, newline, vertical tab, form feed and carriage return from both
  ends.
\<close>

fun split :: "string \<Rightarrow> string list" where
  "split [] = [[]]"
| "split (c # cs) =
     (if c = CHR 0x0A then [] # split cs
      else (case split cs of l # ls \<Rightarrow> (c # l) # ls | [] \<Rightarrow> [[c]]))"

definition whitespace :: "char set" where
  "whitespace = {CHR 0x20, CHR 0x09, CHR 0x0A, CHR 0x0B, CHR 0x0C, CHR 0x0D}"

definition ltrim :: "string \<Rightarrow> string" where
  "ltrim s = dropWhile (\<lambda>c. c \<in> whitespace) s"

definition rtrim :: "string \<Rightarrow> string" where
  "rtrim s = rev (dropWhile (\<lambda>c. c \<in> whitespace) (rev s))"

definition trim :: "string \<Rightarrow> string" where
  "trim s = rtrim (ltrim s)"

text \<open>
  \<^verbatim>\<open>MemoryBuffer::getFile\<close>: the content of the file, or an error (the flag is
  the outcome of the read).
\<close>

definition getFile :: "bool \<Rightarrow> file_status \<Rightarrow> string option" where
  "getFile read_ok file =
     (case file of RegularFile c \<Rightarrow> (if read_ok then Some c else None) | _ \<Rightarrow> None)"

text \<open>The body of the loop over the lines (lines 268 to 272).\<close>

definition insert_line :: "string \<Rightarrow> string set \<Rightarrow> string set" where
  "insert_line line S =
     (let FuncName = trim line
      in if FuncName \<noteq> [] \<and> FuncName \<notin> S then insert FuncName S else S)"

text \<open>\<^verbatim>\<open>LoadPreserveNoneList\<close> (lines 247 to 279).\<close>

definition LoadPreserveNoneList ::
  "bool \<Rightarrow> X86PreserveNonePass \<Rightarrow> file_status \<Rightarrow> Function
     \<Rightarrow> bool \<times> X86PreserveNonePass \<times> Function" where
  "LoadPreserveNoneList read_ok P file F =
     (if isDeclaration F then (False, P, F)
      else
        (let loaded =
           (if FuncNameSet P = {} then
              (if \<not> exists_file file \<or> \<not> is_regular_file file then None
               else
                 (case getFile read_ok file of
                    None \<Rightarrow> None
                  | Some buf \<Rightarrow>
                      Some (P\<lparr>FuncNameSet := fold insert_line (split buf) (FuncNameSet P)\<rparr>)))
            else Some P)
         in case loaded of
              None \<Rightarrow> (False, P, F)
            | Some P' \<Rightarrow>
                if getName F \<in> FuncNameSet P'
                then (True, P', addFnAttr ''no_callee_saved_registers'' ''1'' F)
                else (False, P', F)))"

section \<open>The predicates and scenarios of the specification\<close>

text \<open>
  The specification's \<^verbatim>\<open>allUsesAreDirectCalls\<close>: every use of the function is as
  the called operand of a call instruction.
\<close>

definition isDirectCall :: "User \<Rightarrow> bool" where
  "isDirectCall U = (case U of CallBase c k \<Rightarrow> k = CalledOperand | OtherUser \<Rightarrow> False)"

definition allUsesAreDirectCalls :: "Function \<Rightarrow> bool" where
  "allUsesAreDirectCalls F = list_all isDirectCall (users F)"

text \<open>
  The functions the traversal can reach: the seeds it pushes, and every function that
  holds a call instruction using a reachable function.
\<close>

inductive reachable :: "MachineModuleInfo \<Rightarrow> Module \<Rightarrow> fref \<Rightarrow> bool"
  for MMI :: MachineModuleInfo and M :: Module where
  seed: "f < length M \<Longrightarrow> f \<in> MMI \<Longrightarrow> hasPreserveNoneAttr (M ! f) \<Longrightarrow> reachable MMI M f"
| caller: "reachable MMI M g \<Longrightarrow> CallBase f k \<in> set (users (M ! g)) \<Longrightarrow> f < length M
           \<Longrightarrow> reachable MMI M f"

text \<open>
  The precondition as the specification words it: every function that holds a call
  instruction using a reachable function has a machine function.
\<close>

definition callers_have_machine_functions :: "MachineModuleInfo \<Rightarrow> Module \<Rightarrow> bool" where
  "callers_have_machine_functions MMI M =
     (\<forall>g c k. reachable MMI M g \<longrightarrow> CallBase c k \<in> set (users (M ! g)) \<longrightarrow> c \<in> MMI)"

text \<open>
  A caller chain of the specification's completeness property, as the traversal follows
  it: it starts at a function that has the attribute and a machine function; each
  further function calls the one before, is infectable, has all its uses as direct calls
  and, where it has the attribute already, has a machine function.
\<close>

inductive caller_chain :: "MachineModuleInfo \<Rightarrow> Module \<Rightarrow> fref \<Rightarrow> bool"
  for MMI :: MachineModuleInfo and M :: Module where
  start: "f < length M \<Longrightarrow> f \<in> MMI \<Longrightarrow> hasPreserveNoneAttr (M ! f) \<Longrightarrow> caller_chain MMI M f"
| call: "caller_chain MMI M g \<Longrightarrow> CallBase f CalledOperand \<in> set (users (M ! g))
         \<Longrightarrow> isInfectableFunc (M ! f) \<Longrightarrow> allUsesAreDirectCalls (M ! f)
         \<Longrightarrow> hasPreserveNoneAttr (M ! f) \<longrightarrow> f \<in> MMI
         \<Longrightarrow> caller_chain MMI M f"

text \<open>The names of the functions of a module that carry the attribute.\<close>

definition attributed :: "Module \<Rightarrow> string list" where
  "attributed M = map getName (filter hasPreserveNoneAttr M)"

text \<open>
  Functions for the scenarios: a definition with local linkage, an externally visible
  definition, a weak definition, and a declaration.
\<close>

definition local_function :: "string \<Rightarrow> CallingConv \<Rightarrow> User list \<Rightarrow> Function" where
  "local_function n cc us =
     \<lparr>getName = n, Attrs = [], getCallingConv = cc, isWeakForLinker = False,
      hasLocalLinkage = True, isDeclaration = False, users = us\<rparr>"

definition external_function :: "string \<Rightarrow> CallingConv \<Rightarrow> User list \<Rightarrow> Function" where
  "external_function n cc us =
     \<lparr>getName = n, Attrs = [], getCallingConv = cc, isWeakForLinker = False,
      hasLocalLinkage = False, isDeclaration = False, users = us\<rparr>"

definition weak_function :: "string \<Rightarrow> CallingConv \<Rightarrow> User list \<Rightarrow> Function" where
  "weak_function n cc us =
     \<lparr>getName = n, Attrs = [], getCallingConv = cc, isWeakForLinker = True,
      hasLocalLinkage = False, isDeclaration = False, users = us\<rparr>"

definition declared_function :: "string \<Rightarrow> CallingConv \<Rightarrow> User list \<Rightarrow> Function" where
  "declared_function n cc us =
     \<lparr>getName = n, Attrs = [], getCallingConv = cc, isWeakForLinker = False,
      hasLocalLinkage = False, isDeclaration = True, users = us\<rparr>"

text \<open>
  The scenario of the specification: \<open>A\<close> calls \<open>B\<close>, \<open>B\<close> calls \<open>C\<close>, and
  \<open>C\<close> alone has the attribute. In the second module \<open>B\<close> is weak.
\<close>

definition scenario_ABC :: Module where
  "scenario_ABC =
     [local_function ''A'' C [],
      local_function ''B'' C [CallBase 0 CalledOperand],
      local_function ''C'' PreserveNone [CallBase 1 CalledOperand]]"

definition scenario_B_weak :: Module where
  "scenario_B_weak =
     [local_function ''A'' C [],
      weak_function ''B'' C [CallBase 0 CalledOperand],
      local_function ''C'' PreserveNone [CallBase 1 CalledOperand]]"

text \<open>The module of the scenario after the traversal has run on it.\<close>

definition scenario_ABC_infected :: Module where
  "scenario_ABC_infected =
     [addFnAttr ''no_callee_saved_registers'' ''1'' (local_function ''A'' C []),
      addFnAttr ''no_callee_saved_registers'' ''1''
        (local_function ''B'' C [CallBase 0 CalledOperand]),
      local_function ''C'' PreserveNone [CallBase 1 CalledOperand]]"

text \<open>
  \<open>F\<close> calls the seed \<open>C\<close>, and its only use is as an argument of a call in \<open>G\<close>:
  its address is passed on, and it is never called directly.
\<close>

definition address_passed :: Module where
  "address_passed =
     [external_function ''G'' C [],
      local_function ''F'' C [CallBase 0 ArgOperand],
      local_function ''C'' PreserveNone [CallBase 1 CalledOperand]]"

text \<open>
  The seed \<open>C\<close> is a declaration, so it has no machine function; the local function
  \<open>B\<close> calls it.
\<close>

definition declared_seed :: Module where
  "declared_seed =
     [local_function ''B'' C [],
      declared_function ''C'' PreserveNone [CallBase 0 CalledOperand]]"

text \<open>
  Mutual recursion: \<open>A\<close> and \<open>B\<close> call each other and themselves, and both call the
  seed \<open>C\<close>, which calls itself.
\<close>

definition mutual_recursion :: Module where
  "mutual_recursion =
     [local_function ''A'' C [CallBase 0 CalledOperand, CallBase 1 CalledOperand],
      local_function ''B'' C [CallBase 0 CalledOperand, CallBase 1 CalledOperand],
      local_function ''C'' PreserveNone
        [CallBase 0 CalledOperand, CallBase 1 CalledOperand, CallBase 2 CalledOperand]]"

text \<open>
  The local function \<open>B\<close> calls the seed \<open>C\<close>; the traversal is run with a machine
  function for \<open>C\<close> only.
\<close>

definition caller_without_machine_function :: Module where
  "caller_without_machine_function =
     [local_function ''B'' C [],
      local_function ''C'' PreserveNone [CallBase 0 CalledOperand]]"

text \<open>
  The function \<open>B\<close> has the calling convention of the attribute itself and calls the
  seed \<open>C\<close>; the traversal is run with a machine function for \<open>C\<close> only.
\<close>

definition attributed_caller :: Module where
  "attributed_caller =
     [local_function ''B'' PreserveNone [],
      local_function ''C'' PreserveNone [CallBase 0 CalledOperand]]"

text \<open>
  The function \<open>A\<close> calls \<open>B\<close>, and \<open>B\<close> calls the seed \<open>C\<close>; \<open>B\<close> is
  visible outside the module, so it is not infectable. The traversal is run with
  machine functions for \<open>B\<close> and \<open>C\<close>.
\<close>

definition rejected_between :: Module where
  "rejected_between =
     [local_function ''A'' C [],
      external_function ''B'' C [CallBase 0 CalledOperand],
      local_function ''C'' PreserveNone [CallBase 1 CalledOperand]]"

text \<open>The only user of the seed \<open>C\<close> is no call instruction (a store of its address).\<close>

definition seed_with_other_user :: Module where
  "seed_with_other_user = [local_function ''C'' PreserveNone [OtherUser]]"

section \<open>The predicates and inputs of the registry's properties\<close>

text \<open>Every system call of an invocation of the writer succeeds.\<close>

definition all_calls_succeed :: "os_calls \<Rightarrow> bool" where
  "all_calls_succeed os =
     (raw_fd_ostream_ok os \<and> openFileForReadWrite os \<noteq> None \<and> lock_ok os \<and> unlock_ok os \<and>
      write_ok os)"

text \<open>
  The specification's description of what the loader reads from the content of the
  file: the set of the distinct trimmed lines that are not empty.
\<close>

definition distinct_trimmed_lines :: "string \<Rightarrow> string set" where
  "distinct_trimmed_lines buf = trim ` set (split buf) - {[]}"

text \<open>
  An invocation of the writer whose system calls all succeed, for a definition whose
  name holds no newline.
\<close>

definition clean_write :: "os_calls \<times> Function \<Rightarrow> bool" where
  "clean_write call =
     (all_calls_succeed (fst call) \<and> \<not> isDeclaration (snd call) \<and>
      CHR 0x0A \<notin> set (getName (snd call)))"

text \<open>The content of the registry file, empty where there is no regular file.\<close>

definition content :: "file_status \<Rightarrow> string" where
  "content file = (case file of RegularFile c \<Rightarrow> c | _ \<Rightarrow> [])"

text \<open>
  The registry file of a process that has not touched it. A pass object whose
  descriptor holds 0 and whose name set is empty. System call outcomes that all
  succeed, and the same with a failure to take the lock, with a failure to release it,
  and with a failed write.
\<close>

definition untouched :: "file_status \<Rightarrow> registry_file" where
  "untouched s = \<lparr>status = s, lock_held = False, writes = []\<rparr>"

definition fresh_pass :: X86PreserveNonePass where
  "fresh_pass = \<lparr>FD = 0, FuncNameSet = {}\<rparr>"

definition calls_ok :: os_calls where
  "calls_ok = \<lparr>raw_fd_ostream_ok = True, openFileForReadWrite = Some 3, lock_ok = True,
                unlock_ok = True, write_ok = True\<rparr>"

definition lock_fails :: os_calls where
  "lock_fails = \<lparr>raw_fd_ostream_ok = True, openFileForReadWrite = Some 3, lock_ok = False,
                  unlock_ok = True, write_ok = True\<rparr>"

definition unlock_fails :: os_calls where
  "unlock_fails = \<lparr>raw_fd_ostream_ok = True, openFileForReadWrite = Some 3, lock_ok = True,
                    unlock_ok = False, write_ok = True\<rparr>"

definition write_fails :: os_calls where
  "write_fails = \<lparr>raw_fd_ostream_ok = True, openFileForReadWrite = Some 3, lock_ok = True,
                   unlock_ok = True, write_ok = False\<rparr>"

section \<open>Predicates of the traversal's correctness argument\<close>

text \<open>
  The test of lines 160 to 162 on the users of a function: every user is a call
  instruction. It does not look at the operand through which the call uses the function.
\<close>

definition allUsersAreCalls :: "Function \<Rightarrow> bool" where
  "allUsersAreCalls F = list_all isa_CallBase (users F)"

text \<open>
  The invariant of the worklist loop, relative to the module \<open>M0\<close> at entry:
  the module changes only by the attribute added to functions that had none
  (\<open>shape\<close>); a function that gained the attribute is visited and passed the test of
  the loop (\<open>sound\<close>); a visited function that had the attribute or passes the test has
  it now (\<open>visited_ok\<close>); every caller of a visited function with the attribute has the
  attribute, is visited or is still in the worklist (\<open>closed_under_callers\<close>); and
  every seed is visited or in the worklist (\<open>seeds_pending\<close>).
\<close>

definition shape :: "Module \<Rightarrow> Module \<Rightarrow> bool" where
  "shape M0 M =
     (length M = length M0 \<and>
      (\<forall>i < length M0. M ! i = M0 ! i \<or>
         (\<not> hasPreserveNoneAttr (M0 ! i) \<and>
          M ! i = addFnAttr ''no_callee_saved_registers'' ''1'' (M0 ! i))))"

definition sound :: "Module \<Rightarrow> Module \<Rightarrow> fref list \<Rightarrow> bool" where
  "sound M0 M V =
     (\<forall>i < length M0. hasPreserveNoneAttr (M ! i) \<longrightarrow>
        hasPreserveNoneAttr (M0 ! i) \<or>
        (i \<in> set V \<and> isInfectableFunc (M0 ! i) \<and> allUsersAreCalls (M0 ! i)))"

definition visited_ok :: "Module \<Rightarrow> Module \<Rightarrow> fref list \<Rightarrow> bool" where
  "visited_ok M0 M V =
     (distinct V \<and>
      (\<forall>i \<in> set V. i < length M0 \<and>
         (hasPreserveNoneAttr (M0 ! i) \<or> (isInfectableFunc (M0 ! i) \<and> allUsersAreCalls (M0 ! i))
            \<longrightarrow> hasPreserveNoneAttr (M ! i))))"

definition closed_under_callers ::
  "Module \<Rightarrow> Module \<Rightarrow> fref list \<Rightarrow> fref option list \<Rightarrow> bool" where
  "closed_under_callers M0 M V WL =
     (\<forall>i \<in> set V. hasPreserveNoneAttr (M ! i) \<longrightarrow>
        (\<forall>c k. CallBase c k \<in> set (users (M0 ! i)) \<longrightarrow>
           c < length M0 \<and>
           (hasPreserveNoneAttr (M ! c) \<or> c \<in> set V \<or> Some c \<in> set WL \<or> None \<in> set WL)))"

definition seeds_pending :: "MachineModuleInfo \<Rightarrow> Module \<Rightarrow> fref list \<Rightarrow> fref option list \<Rightarrow> bool" where
  "seeds_pending MMI M0 V WL =
     (\<forall>i < length M0. i \<in> MMI \<and> hasPreserveNoneAttr (M0 ! i) \<longrightarrow> i \<in> set V \<or> Some i \<in> set WL)"

definition traversal_inv ::
  "MachineModuleInfo \<Rightarrow> Module \<Rightarrow> infect_state \<Rightarrow> fref option list \<Rightarrow> bool" where
  "traversal_inv MMI M0 S WL =
     (case S of (M, V, N) \<Rightarrow>
        shape M0 M \<and> sound M0 M V \<and> visited_ok M0 M V \<and>
        closed_under_callers M0 M V WL \<and> seeds_pending MMI M0 V WL)"

text \<open>
  A second invariant: every visited function and every function in the worklist has a
  machine function, and a visited function with the attribute has call instructions as
  its only users (its expansion went through).
\<close>

definition expansion_inv ::
  "MachineModuleInfo \<Rightarrow> Module \<Rightarrow> infect_state \<Rightarrow> fref option list \<Rightarrow> bool" where
  "expansion_inv MMI M0 S WL =
     (case S of (M, V, N) \<Rightarrow>
        shape M0 M \<and> (\<forall>i \<in> set V. i \<in> MMI) \<and> (\<forall>c. Some c \<in> set WL \<longrightarrow> c \<in> MMI) \<and>
        (\<forall>i \<in> set V. hasPreserveNoneAttr (M ! i) \<longrightarrow> allUsersAreCalls (M0 ! i)))"

text \<open>
  The functions whose users the traversal walks through (lines 166 to 175): a function
  that has the attribute and a machine function at entry, and every function without
  the attribute that holds a call instruction using such a function, has a machine
  function and passes the test of lines 159 to 162.
\<close>

inductive expanded :: "MachineModuleInfo \<Rightarrow> Module \<Rightarrow> fref \<Rightarrow> bool"
  for MMI :: MachineModuleInfo and M :: Module where
  seed: "f < length M \<Longrightarrow> f \<in> MMI \<Longrightarrow> hasPreserveNoneAttr (M ! f) \<Longrightarrow> expanded MMI M f"
| infected: "expanded MMI M g \<Longrightarrow> CallBase f k \<in> set (users (M ! g)) \<Longrightarrow> f < length M
             \<Longrightarrow> f \<in> MMI \<Longrightarrow> \<not> hasPreserveNoneAttr (M ! f) \<Longrightarrow> isInfectableFunc (M ! f)
             \<Longrightarrow> allUsersAreCalls (M ! f) \<Longrightarrow> expanded MMI M f"

text \<open>
  The condition under which the traversal never puts a null machine function into the
  worklist: every function of the module that holds a call instruction using a function
  whose users the traversal walks through, and that has no attribute, has a machine
  function. Line 171 does not push the machine function of a caller that has the
  attribute.
\<close>

definition pushed_callers_have_machine_functions :: "MachineModuleInfo \<Rightarrow> Module \<Rightarrow> bool" where
  "pushed_callers_have_machine_functions MMI M =
     (\<forall>g c k. expanded MMI M g \<longrightarrow> CallBase c k \<in> set (users (M ! g)) \<longrightarrow> c < length M \<longrightarrow>
        \<not> hasPreserveNoneAttr (M ! c) \<longrightarrow> c \<in> MMI)"

text \<open>
  A module in which the other two ways of leaving the defined behaviour cannot happen:
  every call instruction sits in a function of the module, and a function that has the
  attribute and a machine function has call instructions as its only users.
\<close>

definition calls_well_formed :: "MachineModuleInfo \<Rightarrow> Module \<Rightarrow> bool" where
  "calls_well_formed MMI M =
     ((\<forall>g c k. g < length M \<longrightarrow> CallBase c k \<in> set (users (M ! g)) \<longrightarrow> c < length M) \<and>
      (\<forall>f. f < length M \<longrightarrow> f \<in> MMI \<longrightarrow> hasPreserveNoneAttr (M ! f) \<longrightarrow>
         allUsersAreCalls (M ! f)))"

text \<open>
  A function that can be in the worklist: it has a machine function, and it has the
  attribute at entry or holds a call instruction using a function whose users the
  traversal walks through. The invariants with which the condition is shown sufficient
  and, in a well-formed module, necessary: a function has the attribute only where it
  had it at entry or is visited, and the worklist holds such functions only (\<open>no_null_inv\<close>)
  or, more weakly, functions with a machine function and possibly the null pointer
  (\<open>no_cast_inv\<close>).
\<close>

definition candidate :: "MachineModuleInfo \<Rightarrow> Module \<Rightarrow> fref \<Rightarrow> bool" where
  "candidate MMI M f =
     (f < length M \<and> f \<in> MMI \<and>
      (hasPreserveNoneAttr (M ! f) \<or>
       (\<exists>g k. expanded MMI M g \<and> CallBase f k \<in> set (users (M ! g)))))"

definition attributed_or_visited :: "Module \<Rightarrow> Module \<Rightarrow> fref list \<Rightarrow> bool" where
  "attributed_or_visited M0 M V =
     (\<forall>i < length M0. hasPreserveNoneAttr (M ! i) \<longrightarrow> hasPreserveNoneAttr (M0 ! i) \<or> i \<in> set V)"

definition no_null_inv ::
  "MachineModuleInfo \<Rightarrow> Module \<Rightarrow> infect_state \<Rightarrow> fref option list \<Rightarrow> bool" where
  "no_null_inv MMI M0 S WL =
     (case S of (M, V, N) \<Rightarrow>
        shape M0 M \<and> attributed_or_visited M0 M V \<and>
        (\<forall>x \<in> set WL. \<exists>f. x = Some f \<and> candidate MMI M0 f))"

definition no_cast_inv ::
  "MachineModuleInfo \<Rightarrow> Module \<Rightarrow> infect_state \<Rightarrow> fref option list \<Rightarrow> bool" where
  "no_cast_inv MMI M0 S WL =
     (case S of (M, V, N) \<Rightarrow>
        shape M0 M \<and> attributed_or_visited M0 M V \<and>
        (\<forall>c. Some c \<in> set WL \<longrightarrow> c < length M0 \<and> c \<in> MMI))"

section \<open>Facts about the traversal\<close>

lemma hasFnAttribute_addFnAttr:
  "hasFnAttribute k' (addFnAttr k v F) = (k' = k \<or> hasFnAttribute k' F)"
  by (simp add: hasFnAttribute_def addFnAttr_def update_conv')

lemma users_addFnAttr: "users (addFnAttr k v F) = users F"
  by (simp add: addFnAttr_def)

lemma getName_addFnAttr: "getName (addFnAttr k v F) = getName F"
  by (simp add: addFnAttr_def)

lemma isInfectableFunc_addFnAttr: "isInfectableFunc (addFnAttr k v F) = isInfectableFunc F"
  by (simp add: addFnAttr_def isInfectableFunc_def)

lemma hasPreserveNoneAttr_addFnAttr:
  "hasPreserveNoneAttr (addFnAttr k v F) =
     (k = ''no_callee_saved_registers'' \<or> k = ''preserve_none'' \<or> hasPreserveNoneAttr F)"
proof -
  have "getCallingConv (addFnAttr k v F) = getCallingConv F"
    by (simp add: addFnAttr_def)
  then show ?thesis
    by (auto simp: hasPreserveNoneAttr_def hasFnAttribute_addFnAttr)
qed

lemma push_callers_CallBase:
  "push_callers MMI M V (CallBase c k # Us) = Inr pushed \<longleftrightarrow>
     c < length M \<and>
     (\<exists>rest. push_callers MMI M V Us = Inr rest \<and>
        pushed = (if (c \<in> MMI \<longrightarrow> c \<notin> set V) \<and> \<not> hasPreserveNoneAttr (M ! c)
                  then [getMachineFunction MMI c] else []) @ rest)"
  by (auto simp: Let_def getMachineFunction_def split: sum.splits)

lemma push_callers_covers:
  "push_callers MMI M V Us = Inr pushed \<Longrightarrow> CallBase c k \<in> set Us \<Longrightarrow>
     c < length M \<and>
     (hasPreserveNoneAttr (M ! c) \<or> c \<in> set V \<or> getMachineFunction MMI c \<in> set pushed)"
proof (induction Us arbitrary: pushed)
  case Nil
  then show ?case by simp
next
  case (Cons W Ws)
  show ?case
  proof (cases W)
    case (CallBase c' k')
    from Cons.prems(1) obtain rest where
      r: "c' < length M" "push_callers MMI M V Ws = Inr rest"
         "pushed = (if (c' \<in> MMI \<longrightarrow> c' \<notin> set V) \<and> \<not> hasPreserveNoneAttr (M ! c')
                    then [getMachineFunction MMI c'] else []) @ rest"
      unfolding CallBase push_callers_CallBase by blast
    show ?thesis
    proof (cases "c = c'")
      case True
      then show ?thesis
        using r(1) r(3) by (auto simp: getMachineFunction_def)
    next
      case False
      with Cons.prems(2) CallBase have "CallBase c k \<in> set Ws" by simp
      from Cons.IH [OF r(2) this] show ?thesis
        unfolding r(3) by auto
    qed
  next
    case OtherUser
    with Cons.prems show ?thesis by simp
  qed
qed

lemma push_callers_sound:
  "push_callers MMI M V Us = Inr pushed \<Longrightarrow> x \<in> set pushed \<Longrightarrow>
     \<exists>c k. CallBase c k \<in> set Us \<and> x = getMachineFunction MMI c \<and>
           c < length M \<and> \<not> hasPreserveNoneAttr (M ! c)"
proof (induction Us arbitrary: pushed)
  case Nil
  then show ?case by simp
next
  case (Cons W Ws)
  show ?case
  proof (cases W)
    case (CallBase c' k')
    from Cons.prems(1) obtain rest where
      r: "c' < length M" "push_callers MMI M V Ws = Inr rest"
         "pushed = (if (c' \<in> MMI \<longrightarrow> c' \<notin> set V) \<and> \<not> hasPreserveNoneAttr (M ! c')
                    then [getMachineFunction MMI c'] else []) @ rest"
      unfolding CallBase push_callers_CallBase by blast
    show ?thesis
    proof (cases "x \<in> set rest")
      case True
      from Cons.IH [OF r(2) True] show ?thesis by auto
    next
      case False
      with Cons.prems(2) r(3) have
        "x = getMachineFunction MMI c'" "\<not> hasPreserveNoneAttr (M ! c')"
        by (auto split: if_splits)
      with r(1) CallBase show ?thesis by auto
    qed
  next
    case OtherUser
    with Cons.prems show ?thesis by simp
  qed
qed


lemma loop_Some_in_range:
  "MFWorkList_loop MMI (M, V, N) (Some MF # WL) = Inr S' \<Longrightarrow> MF < length M"
  by (auto split: if_splits)

lemma loop_skip:
  "MF < length M \<Longrightarrow> MF \<in> set V \<Longrightarrow>
     MFWorkList_loop MMI (M, V, N) (Some MF # WL) = MFWorkList_loop MMI (M, V, N) WL"
  by simp

lemma loop_reject:
  "MF < length M \<Longrightarrow> MF \<notin> set V \<Longrightarrow> \<not> hasPreserveNoneAttr (M ! MF) \<Longrightarrow>
   \<not> isInfectableFunc (M ! MF) \<or> (\<exists>U \<in> set (users (M ! MF)). \<not> isa_CallBase U) \<Longrightarrow>
     MFWorkList_loop MMI (M, V, N) (Some MF # WL) = MFWorkList_loop MMI (M, V @ [MF], N) WL"
  by simp

lemma loop_expand:
  "MF < length M \<Longrightarrow> MF \<notin> set V \<Longrightarrow> hasPreserveNoneAttr (M ! MF) \<Longrightarrow>
     MFWorkList_loop MMI (M, V, N) (Some MF # WL) =
       (case push_callers MMI M (V @ [MF]) (users (M ! MF)) of
          Inl e \<Rightarrow> Inl e
        | Inr pushed \<Rightarrow> MFWorkList_loop MMI (M, V @ [MF], N) (WL @ pushed))"
  by (simp split: sum.splits)

lemma loop_infect:
  "MF < length M \<Longrightarrow> MF \<notin> set V \<Longrightarrow> \<not> hasPreserveNoneAttr (M ! MF) \<Longrightarrow>
   isInfectableFunc (M ! MF) \<Longrightarrow> \<forall>U \<in> set (users (M ! MF)). isa_CallBase U \<Longrightarrow>
     MFWorkList_loop MMI (M, V, N) (Some MF # WL) =
       (case push_callers MMI M (V @ [MF]) (users (M ! MF)) of
          Inl e \<Rightarrow> Inl e
        | Inr pushed \<Rightarrow>
            MFWorkList_loop MMI
              (M[MF := addFnAttr ''no_callee_saved_registers'' ''1'' (M ! MF)],
               V @ [MF], N + 1) (WL @ pushed))"
  by (simp split: sum.splits)

lemma MFWorkList_loop_invariant:
  assumes "MFWorkList_loop MMI S WL = Inr S'"
    and "I S WL"
    and "\<And>M V N MF WL. I (M, V, N) (Some MF # WL) \<Longrightarrow> MF < length M \<Longrightarrow> MF \<in> set V
           \<Longrightarrow> I (M, V, N) WL"
    and "\<And>M V N MF WL. I (M, V, N) (Some MF # WL) \<Longrightarrow> MF < length M \<Longrightarrow> MF \<notin> set V
           \<Longrightarrow> \<not> hasPreserveNoneAttr (M ! MF)
           \<Longrightarrow> \<not> isInfectableFunc (M ! MF) \<or> (\<exists>U \<in> set (users (M ! MF)). \<not> isa_CallBase U)
           \<Longrightarrow> I (M, V @ [MF], N) WL"
    and "\<And>M V N MF WL pushed. I (M, V, N) (Some MF # WL) \<Longrightarrow> MF < length M
           \<Longrightarrow> MF \<notin> set V \<Longrightarrow> \<not> hasPreserveNoneAttr (M ! MF) \<Longrightarrow> isInfectableFunc (M ! MF)
           \<Longrightarrow> \<forall>U \<in> set (users (M ! MF)). isa_CallBase U
           \<Longrightarrow> push_callers MMI M (V @ [MF]) (users (M ! MF)) = Inr pushed
           \<Longrightarrow> I (M[MF := addFnAttr ''no_callee_saved_registers'' ''1'' (M ! MF)],
                  V @ [MF], N + 1) (WL @ pushed)"
    and "\<And>M V N MF WL pushed. I (M, V, N) (Some MF # WL) \<Longrightarrow> MF < length M
           \<Longrightarrow> MF \<notin> set V \<Longrightarrow> hasPreserveNoneAttr (M ! MF)
           \<Longrightarrow> push_callers MMI M (V @ [MF]) (users (M ! MF)) = Inr pushed
           \<Longrightarrow> I (M, V @ [MF], N) (WL @ pushed)"
  shows "I S' []"
proof -
  note skip = assms(3) and reject = assms(4) and infect = assms(5) and expand = assms(6)
  have "MMI' = MMI \<Longrightarrow> MFWorkList_loop MMI' S WL = Inr S' \<Longrightarrow> I S WL \<Longrightarrow> I S' []" for MMI'
  proof (induction MMI' S WL rule: MFWorkList_loop.induct)
    case (1 MMI' M Visited Num)
    then show ?case by simp
  next
    case (2 MMI' M Visited Num WL)
    then show ?case by simp
  next
    case (3 MMI' M V N MF WL)
    note eq = "3.prems"(1) and inv = "3.prems"(3)
    from "3.prems"(2) have run: "MFWorkList_loop MMI (M, V, N) (Some MF # WL) = Inr S'"
      unfolding eq .
    from run have lt: "MF < length M"
      by (rule loop_Some_in_range)
    then have nle: "\<not> length M \<le> MF" by simp
    show ?case
    proof (cases "MF \<in> set V")
      case True
      from run have r: "MFWorkList_loop MMI' (M, V, N) WL = Inr S'"
        unfolding loop_skip [OF lt True] eq .
      show ?thesis
        by (rule "3.IH"(1) [OF nle True eq r skip [OF inv lt True]])
    next
      case nv: False
      show ?thesis
      proof (cases "\<not> hasPreserveNoneAttr (M ! MF) \<and>
                (\<not> isInfectableFunc (M ! MF) \<or> (\<exists>U \<in> set (users (M ! MF)). \<not> isa_CallBase U))")
        case True
        from True have a: "\<not> hasPreserveNoneAttr (M ! MF)"
          and b: "\<not> isInfectableFunc (M ! MF) \<or> (\<exists>U \<in> set (users (M ! MF)). \<not> isa_CallBase U)"
          by blast+
        from run have r: "MFWorkList_loop MMI' (M, V @ [MF], N) WL = Inr S'"
          unfolding loop_reject [OF lt nv a b] eq .
        show ?thesis
          by (rule "3.IH"(2) [OF nle nv True eq r reject [OF inv lt nv a b]])
      next
        case el: False
        show ?thesis
        proof (cases "hasPreserveNoneAttr (M ! MF)")
          case True
          from run obtain pushed where
            p: "push_callers MMI M (V @ [MF]) (users (M ! MF)) = Inr pushed" and
            r: "MFWorkList_loop MMI (M, V @ [MF], N) (WL @ pushed) = Inr S'"
            unfolding loop_expand [OF lt nv True] by (auto split: sum.splits)
          from True have nn: "\<not> \<not> hasPreserveNoneAttr (M ! MF)" by simp
          from p have p': "push_callers MMI' M (V @ [MF]) (users (M ! MF)) = Inr pushed"
            unfolding eq .
          from r have r': "MFWorkList_loop MMI' (M, V @ [MF], N) (WL @ pushed) = Inr S'"
            unfolding eq .
          show ?thesis
            by (rule "3.IH"(4) [OF nle nv el p' nn eq r' expand [OF inv lt nv True p]])
        next
          case False
          from el False have i: "isInfectableFunc (M ! MF)"
            and u: "\<forall>U \<in> set (users (M ! MF)). isa_CallBase U"
            by blast+
          from run obtain pushed where
            p: "push_callers MMI M (V @ [MF]) (users (M ! MF)) = Inr pushed" and
            r: "MFWorkList_loop MMI
                  (M[MF := addFnAttr ''no_callee_saved_registers'' ''1'' (M ! MF)],
                   V @ [MF], N + 1) (WL @ pushed) = Inr S'"
            unfolding loop_infect [OF lt nv False i u] by (auto split: sum.splits)
          from p have p': "push_callers MMI' M (V @ [MF]) (users (M ! MF)) = Inr pushed"
            unfolding eq .
          from r have r': "MFWorkList_loop MMI'
                  (M[MF := addFnAttr ''no_callee_saved_registers'' ''1'' (M ! MF)],
                   V @ [MF], N + 1) (WL @ pushed) = Inr S'"
            unfolding eq .
          show ?thesis
            by (rule "3.IH"(3) [OF nle nv el p' False eq r' infect [OF inv lt nv False i u p]])
        qed
      qed
    qed
  qed
  from this [OF refl assms(1) assms(2)] show ?thesis .
qed

lemma allUsersAreCalls_addFnAttr: "allUsersAreCalls (addFnAttr k v F) = allUsersAreCalls F"
  by (simp add: allUsersAreCalls_def users_addFnAttr)

lemma shape_refl: "shape M M"
  by (simp add: shape_def)

lemma shape_nth:
  assumes "shape M0 M" "i < length M0"
  shows "users (M ! i) = users (M0 ! i)"
    and "isInfectableFunc (M ! i) = isInfectableFunc (M0 ! i)"
    and "allUsersAreCalls (M ! i) = allUsersAreCalls (M0 ! i)"
    and "getName (M ! i) = getName (M0 ! i)"
    and "hasPreserveNoneAttr (M0 ! i) \<Longrightarrow> M ! i = M0 ! i"
    and "\<not> hasPreserveNoneAttr (M ! i) \<Longrightarrow> M ! i = M0 ! i"
proof -
  from assms have d: "M ! i = M0 ! i \<or>
      (\<not> hasPreserveNoneAttr (M0 ! i) \<and>
       M ! i = addFnAttr ''no_callee_saved_registers'' ''1'' (M0 ! i))"
    by (simp add: shape_def)
  from d show "users (M ! i) = users (M0 ! i)"
    by (auto simp: users_addFnAttr)
  from d show "isInfectableFunc (M ! i) = isInfectableFunc (M0 ! i)"
    by (auto simp: isInfectableFunc_addFnAttr)
  from d show "allUsersAreCalls (M ! i) = allUsersAreCalls (M0 ! i)"
    by (auto simp: allUsersAreCalls_addFnAttr)
  from d show "getName (M ! i) = getName (M0 ! i)"
    by (auto simp: getName_addFnAttr)
  from d show "hasPreserveNoneAttr (M0 ! i) \<Longrightarrow> M ! i = M0 ! i"
    by auto
  from d show "\<not> hasPreserveNoneAttr (M ! i) \<Longrightarrow> M ! i = M0 ! i"
    by (auto simp: hasPreserveNoneAttr_addFnAttr)
qed

lemma shape_infect:
  assumes "shape M0 M" "MF < length M" "\<not> hasPreserveNoneAttr (M ! MF)"
  shows "shape M0 (M[MF := addFnAttr ''no_callee_saved_registers'' ''1'' (M ! MF)])"
proof -
  from assms have len: "length M = length M0" by (simp add: shape_def)
  from assms len have eq: "M ! MF = M0 ! MF"
    by (simp add: shape_nth(6))
  show ?thesis
    unfolding shape_def
  proof (intro conjI allI impI)
    show "length (M[MF := addFnAttr ''no_callee_saved_registers'' ''1'' (M ! MF)]) = length M0"
      using len by simp
  next
    fix i assume i: "i < length M0"
    show "M[MF := addFnAttr ''no_callee_saved_registers'' ''1'' (M ! MF)] ! i = M0 ! i \<or>
          \<not> hasPreserveNoneAttr (M0 ! i) \<and>
          M[MF := addFnAttr ''no_callee_saved_registers'' ''1'' (M ! MF)] ! i =
          addFnAttr ''no_callee_saved_registers'' ''1'' (M0 ! i)"
    proof (cases "i = MF")
      case True
      with assms(2,3) eq show ?thesis by simp
    next
      case False
      with assms(1) i show ?thesis by (simp add: shape_def)
    qed
  qed
qed

lemma hasAttr_infect:
  "c < length M \<Longrightarrow>
   hasPreserveNoneAttr (M[MF := addFnAttr ''no_callee_saved_registers'' ''1'' (M ! MF)] ! c) =
     (c = MF \<or> hasPreserveNoneAttr (M ! c))"
  by (cases "c = MF") (simp_all add: hasPreserveNoneAttr_addFnAttr)


lemma closed_under_callers_step:
  assumes old: "closed_under_callers M0 M V (Some MF # WL)"
    and mono: "\<And>c. c < length M0 \<Longrightarrow> hasPreserveNoneAttr (M ! c) \<Longrightarrow> hasPreserveNoneAttr (M' ! c)"
    and same: "\<And>i. i \<in> set V \<Longrightarrow> hasPreserveNoneAttr (M' ! i) \<Longrightarrow> hasPreserveNoneAttr (M ! i)"
    and new: "\<And>c k. hasPreserveNoneAttr (M' ! MF) \<Longrightarrow> CallBase c k \<in> set (users (M0 ! MF)) \<Longrightarrow>
               c < length M0 \<and>
               (hasPreserveNoneAttr (M' ! c) \<or> c \<in> set (V @ [MF]) \<or>
                Some c \<in> set (WL @ pushed) \<or> None \<in> set (WL @ pushed))"
  shows "closed_under_callers M0 M' (V @ [MF]) (WL @ pushed)"
  unfolding closed_under_callers_def
proof (intro ballI impI allI)
  fix i c k
  assume i: "i \<in> set (V @ [MF])" and a: "hasPreserveNoneAttr (M' ! i)"
    and u: "CallBase c k \<in> set (users (M0 ! i))"
  show "c < length M0 \<and>
        (hasPreserveNoneAttr (M' ! c) \<or> c \<in> set (V @ [MF]) \<or>
         Some c \<in> set (WL @ pushed) \<or> None \<in> set (WL @ pushed))"
  proof (cases "i = MF")
    case True
    with a u new show ?thesis by blast
  next
    case False
    with i have iv: "i \<in> set V" by simp
    from old iv same [OF iv a] u have
      o: "c < length M0 \<and> (hasPreserveNoneAttr (M ! c) \<or> c \<in> set V \<or>
           Some c \<in> set (Some MF # WL) \<or> None \<in> set (Some MF # WL))"
      unfolding closed_under_callers_def by blast
    then have c: "c < length M0" by simp
    from o mono [OF c] show ?thesis by auto
  qed
qed

lemma closed_under_callers_skip:
  "closed_under_callers M0 M V (Some MF # WL) \<Longrightarrow> MF \<in> set V \<Longrightarrow>
     closed_under_callers M0 M V WL"
  unfolding closed_under_callers_def by auto

lemma seeds_pending_skip:
  "seeds_pending MMI M0 V (Some MF # WL) \<Longrightarrow> MF \<in> set V \<Longrightarrow> seeds_pending MMI M0 V WL"
  unfolding seeds_pending_def by auto

lemma seeds_pending_step:
  "seeds_pending MMI M0 V (Some MF # WL) \<Longrightarrow> seeds_pending MMI M0 (V @ [MF]) (WL @ pushed)"
  unfolding seeds_pending_def by auto

lemma visited_ok_step:
  assumes "visited_ok M0 M V" "MF < length M0" "MF \<notin> set V"
    and "\<And>c. c < length M0 \<Longrightarrow> hasPreserveNoneAttr (M ! c) \<Longrightarrow> hasPreserveNoneAttr (M' ! c)"
    and "hasPreserveNoneAttr (M0 ! MF) \<or> (isInfectableFunc (M0 ! MF) \<and> allUsersAreCalls (M0 ! MF))
           \<Longrightarrow> hasPreserveNoneAttr (M' ! MF)"
  shows "visited_ok M0 M' (V @ [MF])"
  using assms unfolding visited_ok_def by auto

lemma sound_step:
  assumes "sound M0 M V"
    and "\<And>c. c < length M0 \<Longrightarrow> c \<noteq> MF \<Longrightarrow> hasPreserveNoneAttr (M' ! c) \<Longrightarrow> hasPreserveNoneAttr (M ! c)"
    and "hasPreserveNoneAttr (M' ! MF) \<Longrightarrow> hasPreserveNoneAttr (M ! MF) \<or>
           (isInfectableFunc (M0 ! MF) \<and> allUsersAreCalls (M0 ! MF))"
  shows "sound M0 M' (V @ [MF])"
  using assms unfolding sound_def by (metis Un_iff list.set_intros(1) set_append)


lemma pushed_covers:
  assumes "push_callers MMI M V' Us = Inr pushed" "CallBase c k \<in> set Us"
    and "\<And>c. c < length M \<Longrightarrow> hasPreserveNoneAttr (M ! c) \<Longrightarrow> hasPreserveNoneAttr (M' ! c)"
  shows "c < length M \<and>
         (hasPreserveNoneAttr (M' ! c) \<or> c \<in> set V' \<or>
          Some c \<in> set (WL @ pushed) \<or> None \<in> set (WL @ pushed))"
proof -
  from push_callers_covers [OF assms(1,2)] have
    c: "c < length M" and
    d: "hasPreserveNoneAttr (M ! c) \<or> c \<in> set V' \<or> getMachineFunction MMI c \<in> set pushed"
    by blast+
  have "getMachineFunction MMI c = Some c \<or> getMachineFunction MMI c = None"
    by (simp add: getMachineFunction_def)
  with d assms(3) [OF c] show ?thesis
    using c by auto
qed

lemma traversal_inv_init: "traversal_inv MMI M0 (M0, [], N0) (seeds MMI M0)"
proof -
  have "seeds_pending MMI M0 [] (seeds MMI M0)"
    unfolding seeds_pending_def seeds_def getMachineFunction_def by auto
  moreover have "sound M0 M0 []"
    by (simp add: sound_def)
  moreover have "visited_ok M0 M0 []"
    by (simp add: visited_ok_def)
  moreover have "closed_under_callers M0 M0 [] (seeds MMI M0)"
    by (simp add: closed_under_callers_def)
  ultimately show ?thesis
    by (simp add: traversal_inv_def shape_refl)
qed

lemma traversal_inv_skip:
  assumes "traversal_inv MMI M0 (M, V, N) (Some MF # WL)" "MF \<in> set V"
  shows "traversal_inv MMI M0 (M, V, N) WL"
  using assms unfolding traversal_inv_def
  by (auto intro: closed_under_callers_skip seeds_pending_skip)

lemma traversal_inv_reject:
  assumes inv: "traversal_inv MMI M0 (M, V, N) (Some MF # WL)"
    and lt: "MF < length M" and nv: "MF \<notin> set V"
    and na: "\<not> hasPreserveNoneAttr (M ! MF)"
    and ne: "\<not> isInfectableFunc (M ! MF) \<or> (\<exists>U \<in> set (users (M ! MF)). \<not> isa_CallBase U)"
  shows "traversal_inv MMI M0 (M, V @ [MF], N) WL"
proof -
  from inv have sh: "shape M0 M" and so: "sound M0 M V" and vo: "visited_ok M0 M V"
    and cl: "closed_under_callers M0 M V (Some MF # WL)"
    and sp: "seeds_pending MMI M0 V (Some MF # WL)"
    by (simp_all add: traversal_inv_def)
  from sh lt have lt0: "MF < length M0" by (simp add: shape_def)
  from ne have "\<not> (isInfectableFunc (M ! MF) \<and> allUsersAreCalls (M ! MF))"
    by (auto simp: allUsersAreCalls_def list_all_iff)
  then have ne0: "\<not> (isInfectableFunc (M0 ! MF) \<and> allUsersAreCalls (M0 ! MF))"
    using shape_nth(2,3) [OF sh lt0] by simp
  from na shape_nth(5) [OF sh lt0] have na0: "\<not> hasPreserveNoneAttr (M0 ! MF)"
    by auto
  have 1: "sound M0 M (V @ [MF])"
    by (rule sound_step [OF so]) (simp_all add: na)
  have 2: "visited_ok M0 M (V @ [MF])"
    by (rule visited_ok_step [OF vo lt0 nv]) (use na0 ne0 in auto)
  have "closed_under_callers M0 M (V @ [MF]) (WL @ [])"
    by (rule closed_under_callers_step [OF cl]) (use na in auto)
  then have 3: "closed_under_callers M0 M (V @ [MF]) WL" by simp
  have "seeds_pending MMI M0 (V @ [MF]) (WL @ [])"
    by (rule seeds_pending_step [OF sp])
  then have 4: "seeds_pending MMI M0 (V @ [MF]) WL" by simp
  from sh 1 2 3 4 show ?thesis
    by (simp add: traversal_inv_def)
qed

lemma traversal_inv_expand:
  assumes inv: "traversal_inv MMI M0 (M, V, N) (Some MF # WL)"
    and lt: "MF < length M" and nv: "MF \<notin> set V"
    and ha: "hasPreserveNoneAttr (M ! MF)"
    and p: "push_callers MMI M (V @ [MF]) (users (M ! MF)) = Inr pushed"
  shows "traversal_inv MMI M0 (M, V @ [MF], N) (WL @ pushed)"
proof -
  from inv have sh: "shape M0 M" and so: "sound M0 M V" and vo: "visited_ok M0 M V"
    and cl: "closed_under_callers M0 M V (Some MF # WL)"
    and sp: "seeds_pending MMI M0 V (Some MF # WL)"
    by (simp_all add: traversal_inv_def)
  from sh lt have lt0: "MF < length M0" and len: "length M = length M0"
    by (simp_all add: shape_def)
  have 1: "sound M0 M (V @ [MF])"
    by (rule sound_step [OF so]) (simp_all add: ha)
  have 2: "visited_ok M0 M (V @ [MF])"
    by (rule visited_ok_step [OF vo lt0 nv]) (use ha in auto)
  have 3: "closed_under_callers M0 M (V @ [MF]) (WL @ pushed)"
  proof (rule closed_under_callers_step [OF cl])
    fix c k
    assume "CallBase c k \<in> set (users (M0 ! MF))"
    then have "CallBase c k \<in> set (users (M ! MF))"
      using shape_nth(1) [OF sh lt0] by simp
    then have "c < length M \<and>
          (hasPreserveNoneAttr (M ! c) \<or> c \<in> set (V @ [MF]) \<or>
           Some c \<in> set (WL @ pushed) \<or> None \<in> set (WL @ pushed))"
      by (rule pushed_covers [OF p])
    with len
    show "c < length M0 \<and>
          (hasPreserveNoneAttr (M ! c) \<or> c \<in> set (V @ [MF]) \<or>
           Some c \<in> set (WL @ pushed) \<or> None \<in> set (WL @ pushed))"
      by simp
  qed auto
  have 4: "seeds_pending MMI M0 (V @ [MF]) (WL @ pushed)"
    by (rule seeds_pending_step [OF sp])
  from sh 1 2 3 4 show ?thesis
    by (simp add: traversal_inv_def)
qed

lemma traversal_inv_infect:
  assumes inv: "traversal_inv MMI M0 (M, V, N) (Some MF # WL)"
    and lt: "MF < length M" and nv: "MF \<notin> set V"
    and na: "\<not> hasPreserveNoneAttr (M ! MF)"
    and inf: "isInfectableFunc (M ! MF)"
    and calls: "\<forall>U \<in> set (users (M ! MF)). isa_CallBase U"
    and p: "push_callers MMI M (V @ [MF]) (users (M ! MF)) = Inr pushed"
  shows "traversal_inv MMI M0
           (M[MF := addFnAttr ''no_callee_saved_registers'' ''1'' (M ! MF)], V @ [MF], N + 1)
           (WL @ pushed)"
proof -
  let ?M' = "M[MF := addFnAttr ''no_callee_saved_registers'' ''1'' (M ! MF)]"
  from inv have sh: "shape M0 M" and so: "sound M0 M V" and vo: "visited_ok M0 M V"
    and cl: "closed_under_callers M0 M V (Some MF # WL)"
    and sp: "seeds_pending MMI M0 V (Some MF # WL)"
    by (simp_all add: traversal_inv_def)
  from sh lt have lt0: "MF < length M0" and len: "length M = length M0"
    by (simp_all add: shape_def)
  have attr: "hasPreserveNoneAttr (?M' ! c) = (c = MF \<or> hasPreserveNoneAttr (M ! c))"
    if "c < length M0" for c
    using that len by (simp add: hasAttr_infect)
  from calls have "allUsersAreCalls (M ! MF)"
    by (simp add: allUsersAreCalls_def list_all_iff)
  with inf have el0: "isInfectableFunc (M0 ! MF) \<and> allUsersAreCalls (M0 ! MF)"
    using shape_nth(2,3) [OF sh lt0] by simp
  have 0: "shape M0 ?M'"
    by (rule shape_infect [OF sh lt na])
  have 1: "sound M0 ?M' (V @ [MF])"
    by (rule sound_step [OF so]) (use attr el0 in auto)
  have 2: "visited_ok M0 ?M' (V @ [MF])"
    by (rule visited_ok_step [OF vo lt0 nv]) (use attr lt0 in auto)
  have 3: "closed_under_callers M0 ?M' (V @ [MF]) (WL @ pushed)"
  proof (rule closed_under_callers_step [OF cl])
    fix c k
    assume "CallBase c k \<in> set (users (M0 ! MF))"
    then have "CallBase c k \<in> set (users (M ! MF))"
      using shape_nth(1) [OF sh lt0] by simp
    then have "c < length M \<and>
          (hasPreserveNoneAttr (?M' ! c) \<or> c \<in> set (V @ [MF]) \<or>
           Some c \<in> set (WL @ pushed) \<or> None \<in> set (WL @ pushed))"
      by (rule pushed_covers [OF p]) (simp add: hasAttr_infect)
    with len
    show "c < length M0 \<and>
          (hasPreserveNoneAttr (?M' ! c) \<or> c \<in> set (V @ [MF]) \<or>
           Some c \<in> set (WL @ pushed) \<or> None \<in> set (WL @ pushed))"
      by simp
  next
    fix c assume "c < length M0" "hasPreserveNoneAttr (M ! c)"
    then show "hasPreserveNoneAttr (?M' ! c)" by (simp add: attr)
  next
    fix i assume i: "i \<in> set V" and "hasPreserveNoneAttr (?M' ! i)"
    moreover from i vo have "i < length M0" by (simp add: visited_ok_def)
    moreover from i nv have "i \<noteq> MF" by auto
    ultimately show "hasPreserveNoneAttr (M ! i)" by (simp add: attr)
  qed
  have 4: "seeds_pending MMI M0 (V @ [MF]) (WL @ pushed)"
    by (rule seeds_pending_step [OF sp])
  from 0 1 2 3 4 show ?thesis
    by (simp add: traversal_inv_def)
qed

lemma traversal_inv_final:
  assumes "MFWorkList_loop MMI (M0, [], N0) (seeds MMI M0) = Inr S'"
  shows "traversal_inv MMI M0 S' []"
proof (rule MFWorkList_loop_invariant [where I = "traversal_inv MMI M0", OF assms])
  show "traversal_inv MMI M0 (M0, [], N0) (seeds MMI M0)"
    by (rule traversal_inv_init)
qed (blast intro: traversal_inv_skip traversal_inv_reject traversal_inv_infect
       traversal_inv_expand)+

section \<open>The scenarios, evaluated\<close>

lemmas scenario_defs =
  local_function_def external_function_def weak_function_def declared_function_def
  seeds_def hasPreserveNoneAttr_def hasFnAttribute_def getMachineFunction_def
  isInfectableFunc_def isa_CallBase_def addFnAttr_def upt_rec

lemma run_scenario_ABC:
  "runOnModule True {0, 1, 2} 0 scenario_ABC =
     Inr (True,
          [addFnAttr ''no_callee_saved_registers'' ''1'' (local_function ''A'' C []),
           addFnAttr ''no_callee_saved_registers'' ''1''
             (local_function ''B'' C [CallBase 0 CalledOperand]),
           local_function ''C'' PreserveNone [CallBase 1 CalledOperand]], 2)"
  by (simp add: runOnModule_def scenario_ABC_def scenario_defs)

lemma attributed_scenario_ABC:
  "(case runOnModule True {0, 1, 2} 0 scenario_ABC of
      Inl e \<Rightarrow> [] | Inr (r, M', n) \<Rightarrow> attributed M') = [''A'', ''B'', ''C'']"
  unfolding run_scenario_ABC
  by (simp add: attributed_def scenario_defs)

lemma run_scenario_B_weak:
  "runOnModule True {0, 1, 2} 0 scenario_B_weak = Inr (False, scenario_B_weak, 0)"
  by (simp add: runOnModule_def scenario_B_weak_def scenario_defs)

lemma attributed_scenario_B_weak:
  "(case runOnModule True {0, 1, 2} 0 scenario_B_weak of
      Inl e \<Rightarrow> [] | Inr (r, M', n) \<Rightarrow> attributed M') = [''C'']"
  unfolding run_scenario_B_weak
  by (simp add: attributed_def scenario_B_weak_def scenario_defs)


lemma runOnModule_loop:
  assumes "runOnModule True MMI N M = Inr (r, M', N')" "M \<noteq> []"
  shows "\<exists>V'. MFWorkList_loop MMI (M, [], N) (seeds MMI M) = Inr (M', V', N') \<and> r = (N' > 0)"
  using assms by (auto simp: runOnModule_def split: sum.splits)

lemma direct_calls_are_calls: "allUsesAreDirectCalls F \<Longrightarrow> allUsersAreCalls F"
  unfolding allUsesAreDirectCalls_def allUsersAreCalls_def list_all_iff
  by (auto simp: isDirectCall_def isa_CallBase_def split: User.splits)

lemma caller_chain_attributed:
  assumes loop: "MFWorkList_loop MMI (M, [], N) (seeds MMI M) = Inr (M', V', N')"
    and chain: "caller_chain MMI M f"
  shows "f \<in> set V' \<and> hasPreserveNoneAttr (M' ! f)"
proof -
  from traversal_inv_final [OF loop] have
    sh: "shape M M'" and so: "sound M M' V'" and vo: "visited_ok M M' V'"
    and cl: "closed_under_callers M M' V' []" and sp: "seeds_pending MMI M V' []"
    by (simp_all add: traversal_inv_def)
  from chain show ?thesis
  proof (induction rule: caller_chain.induct)
    case (start f)
    with sp have v: "f \<in> set V'"
      by (simp add: seeds_pending_def)
    with vo start show ?case
      by (simp add: visited_ok_def)
  next
    case (call g f)
    from call.IH call.hyps(2) cl have
      lt: "f < length M" and d: "hasPreserveNoneAttr (M' ! f) \<or> f \<in> set V'"
      unfolding closed_under_callers_def by auto
    have v: "f \<in> set V'"
    proof (rule ccontr)
      assume n: "f \<notin> set V'"
      with d have "hasPreserveNoneAttr (M' ! f)" by simp
      with so lt n have "hasPreserveNoneAttr (M ! f)"
        unfolding sound_def by blast
      with call.hyps(5) have "f \<in> MMI" "hasPreserveNoneAttr (M ! f)" by simp_all
      with sp lt have "f \<in> set V'"
        by (simp add: seeds_pending_def)
      with n show False by simp
    qed
    from call.hyps(3,4) have "isInfectableFunc (M ! f) \<and> allUsersAreCalls (M ! f)"
      by (simp add: direct_calls_are_calls)
    with vo v show ?case
      unfolding visited_ok_def by blast
  qed
qed

lemma sound_for_call_users:
  assumes "runOnModule flag MMI N M = Inr (r, M', N')" "i < length M"
    "hasPreserveNoneAttr (M' ! i)"
  shows "hasPreserveNoneAttr (M ! i) \<or> (isInfectableFunc (M ! i) \<and> allUsersAreCalls (M ! i))"
proof (cases "flag")
  case False
  with assms show ?thesis by (simp add: runOnModule_def)
next
  case True
  from assms(2) have ne: "M \<noteq> []" by auto
  from assms(1) True have "runOnModule True MMI N M = Inr (r, M', N')" by simp
  from runOnModule_loop [OF this ne] obtain V' where
    "MFWorkList_loop MMI (M, [], N) (seeds MMI M) = Inr (M', V', N')" by blast
  from traversal_inv_final [OF this] have "sound M M' V'"
    by (simp add: traversal_inv_def)
  with assms(2,3) show ?thesis
    unfolding sound_def by blast
qed

section \<open>Soundness of infection\<close>

lemma run_address_passed:
  "runOnModule True {0, 1, 2} 0 address_passed =
     Inr (True,
          address_passed
            [1 := addFnAttr ''no_callee_saved_registers'' ''1'' (address_passed ! 1)], 1)"
  by (simp add: runOnModule_def address_passed_def scenario_defs)

text \<open>
  Claim C1 (soundness of infection): a function that newly receives the attribute was
  infectable and had every use as the called operand of a call instruction. The code
  does not keep to it. The traversal tests that every user is a call instruction (lemma
  \<open>sound_for_call_users\<close>) and does not look at the operand through which the call
  uses the function. In the module \<open>address_passed\<close> the function \<open>F\<close> has no
  attribute at entry and its only use is as an argument of a call in \<open>G\<close>, so not all
  its uses are direct calls; the traversal reaches \<open>F\<close> from the seed it calls and
  gives it the attribute.
\<close>

theorem infects_function_passed_as_argument:
  "runOnModule True {0, 1, 2} 0 address_passed =
     Inr (True,
          address_passed
            [1 := addFnAttr ''no_callee_saved_registers'' ''1'' (address_passed ! 1)], 1) \<and>
   \<not> hasPreserveNoneAttr (address_passed ! 1) \<and>
   hasPreserveNoneAttr
     (address_passed
        [1 := addFnAttr ''no_callee_saved_registers'' ''1'' (address_passed ! 1)] ! 1) \<and>
   users (address_passed ! 1) = [CallBase 0 ArgOperand] \<and>
   \<not> allUsesAreDirectCalls (address_passed ! 1)"
proof -
  have "\<not> hasPreserveNoneAttr (address_passed ! 1)"
    by (simp add: address_passed_def scenario_defs)
  moreover have "hasPreserveNoneAttr
     (address_passed
        [1 := addFnAttr ''no_callee_saved_registers'' ''1'' (address_passed ! 1)] ! 1)"
    by (simp add: address_passed_def hasPreserveNoneAttr_addFnAttr)
  moreover have "users (address_passed ! 1) = [CallBase 0 ArgOperand]"
    by (simp add: address_passed_def local_function_def)
  moreover have "\<not> allUsesAreDirectCalls (address_passed ! 1)"
    by (simp add: address_passed_def local_function_def allUsesAreDirectCalls_def
        isDirectCall_def)
  ultimately show ?thesis
    using run_address_passed by simp
qed

section \<open>The result of the traversal\<close>

lemma MFWorkList_loop_returns:
  assumes "J S WL"
    and "\<And>M V N x WL. J (M, V, N) (x # WL) \<Longrightarrow> \<exists>MF. x = Some MF \<and> MF < length M"
    and "\<And>M V N MF WL. J (M, V, N) (Some MF # WL) \<Longrightarrow> MF < length M \<Longrightarrow> MF \<in> set V
           \<Longrightarrow> J (M, V, N) WL"
    and "\<And>M V N MF WL. J (M, V, N) (Some MF # WL) \<Longrightarrow> MF < length M \<Longrightarrow> MF \<notin> set V
           \<Longrightarrow> \<not> hasPreserveNoneAttr (M ! MF)
           \<Longrightarrow> \<not> isInfectableFunc (M ! MF) \<or> (\<exists>U \<in> set (users (M ! MF)). \<not> isa_CallBase U)
           \<Longrightarrow> J (M, V @ [MF], N) WL"
    and "\<And>M V N MF WL. J (M, V, N) (Some MF # WL) \<Longrightarrow> MF < length M
           \<Longrightarrow> MF \<notin> set V \<Longrightarrow> \<not> hasPreserveNoneAttr (M ! MF) \<Longrightarrow> isInfectableFunc (M ! MF)
           \<Longrightarrow> \<forall>U \<in> set (users (M ! MF)). isa_CallBase U
           \<Longrightarrow> \<exists>pushed. push_callers MMI M (V @ [MF]) (users (M ! MF)) = Inr pushed \<and>
                 J (M[MF := addFnAttr ''no_callee_saved_registers'' ''1'' (M ! MF)],
                    V @ [MF], N + 1) (WL @ pushed)"
    and "\<And>M V N MF WL. J (M, V, N) (Some MF # WL) \<Longrightarrow> MF < length M
           \<Longrightarrow> MF \<notin> set V \<Longrightarrow> hasPreserveNoneAttr (M ! MF)
           \<Longrightarrow> \<exists>pushed. push_callers MMI M (V @ [MF]) (users (M ! MF)) = Inr pushed \<and>
                 J (M, V @ [MF], N) (WL @ pushed)"
  shows "\<exists>S'. MFWorkList_loop MMI S WL = Inr S' \<and> J S' []"
proof -
  note head = assms(2) and skip = assms(3) and reject = assms(4) and infect = assms(5)
    and expand = assms(6)
  have "MMI' = MMI \<Longrightarrow> J S WL \<Longrightarrow> \<exists>S'. MFWorkList_loop MMI' S WL = Inr S' \<and> J S' []" for MMI'
  proof (induction MMI' S WL rule: MFWorkList_loop.induct)
    case (1 MMI' M Visited Num)
    then show ?case by simp
  next
    case (2 MMI' M Visited Num WL)
    with head show ?case by blast
  next
    case (3 MMI' M V N MF WL)
    note eq = "3.prems"(1) and inv = "3.prems"(2)
    from head [OF inv] have lt: "MF < length M" by simp
    then have nle: "\<not> length M \<le> MF" by simp
    show ?case
    proof (cases "MF \<in> set V")
      case True
      from "3.IH"(1) [OF nle True eq skip [OF inv lt True]] show ?thesis
        unfolding loop_skip [OF lt True] .
    next
      case nv: False
      show ?thesis
      proof (cases "\<not> hasPreserveNoneAttr (M ! MF) \<and>
                (\<not> isInfectableFunc (M ! MF) \<or> (\<exists>U \<in> set (users (M ! MF)). \<not> isa_CallBase U))")
        case True
        from True have a: "\<not> hasPreserveNoneAttr (M ! MF)"
          and b: "\<not> isInfectableFunc (M ! MF) \<or> (\<exists>U \<in> set (users (M ! MF)). \<not> isa_CallBase U)"
          by blast+
        from "3.IH"(2) [OF nle nv True eq reject [OF inv lt nv a b]] show ?thesis
          unfolding loop_reject [OF lt nv a b] .
      next
        case el: False
        show ?thesis
        proof (cases "hasPreserveNoneAttr (M ! MF)")
          case True
          from True have n2: "\<not> \<not> hasPreserveNoneAttr (M ! MF)" by simp
          from expand [OF inv lt nv True] obtain pushed where
            p: "push_callers MMI M (V @ [MF]) (users (M ! MF)) = Inr pushed" and
            j: "J (M, V @ [MF], N) (WL @ pushed)" by blast
          from p have p': "push_callers MMI' M (V @ [MF]) (users (M ! MF)) = Inr pushed"
            unfolding eq .
          from "3.IH"(4) [OF nle nv el p' n2 eq j] show ?thesis
            unfolding loop_expand [OF lt nv True] p' by simp
        next
          case False
          from el False have i: "isInfectableFunc (M ! MF)"
            and u: "\<forall>U \<in> set (users (M ! MF)). isa_CallBase U"
            by blast+
          from infect [OF inv lt nv False i u] obtain pushed where
            p: "push_callers MMI M (V @ [MF]) (users (M ! MF)) = Inr pushed" and
            j: "J (M[MF := addFnAttr ''no_callee_saved_registers'' ''1'' (M ! MF)],
                  V @ [MF], N + 1) (WL @ pushed)" by blast
          from p have p': "push_callers MMI' M (V @ [MF]) (users (M ! MF)) = Inr pushed"
            unfolding eq .
          from "3.IH"(3) [OF nle nv el p' False eq j] show ?thesis
            unfolding loop_infect [OF lt nv False i u] p' by simp
        qed
      qed
    qed
  qed
  from this [OF refl assms(1)] show ?thesis .
qed


lemma push_callers_all_calls:
  "push_callers MMI M V Us = Inr pushed \<Longrightarrow> U \<in> set Us \<Longrightarrow> isa_CallBase U"
proof (induction Us arbitrary: pushed)
  case Nil
  then show ?case by simp
next
  case (Cons W Ws)
  show ?case
  proof (cases W)
    case (CallBase c k)
    with Cons.prems(1) obtain rest where "push_callers MMI M V Ws = Inr rest"
      unfolding CallBase push_callers_CallBase by blast
    with Cons.IH Cons.prems(2) CallBase show ?thesis
      by (auto simp: isa_CallBase_def)
  next
    case OtherUser
    with Cons.prems show ?thesis by simp
  qed
qed

lemma push_callers_succeeds:
  assumes "\<forall>U \<in> set Us. isa_CallBase U" "\<forall>c k. CallBase c k \<in> set Us \<longrightarrow> c < length M"
  shows "\<exists>pushed. push_callers MMI M V Us = Inr pushed"
  using assms
proof (induction Us)
  case Nil
  then show ?case by simp
next
  case (Cons W Ws)
  from Cons.prems(1) obtain c k where W: "W = CallBase c k"
    by (cases W) (auto simp: isa_CallBase_def)
  from Cons.prems(2) W have lt: "c < length M" by auto
  from Cons.IH Cons.prems obtain rest where "push_callers MMI M V Ws = Inr rest"
    by auto
  with lt show ?case
    unfolding W push_callers_CallBase by blast
qed

lemma pushed_have_machine_functions:
  assumes "push_callers MMI M V Us = Inr pushed" "Some c \<in> set pushed"
  shows "c \<in> MMI"
proof -
  from push_callers_sound [OF assms] obtain c' where "Some c = getMachineFunction MMI c'"
    by blast
  then show ?thesis
    by (auto simp: getMachineFunction_def split: if_splits)
qed

lemma expansion_inv_final:
  assumes "MFWorkList_loop MMI (M0, [], N0) (seeds MMI M0) = Inr S'"
  shows "expansion_inv MMI M0 S' []"
proof (rule MFWorkList_loop_invariant [where I = "expansion_inv MMI M0", OF assms])
  show "expansion_inv MMI M0 (M0, [], N0) (seeds MMI M0)"
    by (auto simp: expansion_inv_def shape_refl seeds_def getMachineFunction_def
        split: if_splits)
next
  fix M V N MF WL
  assume "expansion_inv MMI M0 (M, V, N) (Some MF # WL)"
  then show "expansion_inv MMI M0 (M, V, N) WL"
    by (simp add: expansion_inv_def)
next
  fix M V N MF WL
  assume "expansion_inv MMI M0 (M, V, N) (Some MF # WL)" "\<not> hasPreserveNoneAttr (M ! MF)"
  then show "expansion_inv MMI M0 (M, V @ [MF], N) WL"
    by (auto simp: expansion_inv_def)
next
  fix M V N MF WL pushed
  assume inv: "expansion_inv MMI M0 (M, V, N) (Some MF # WL)" and lt: "MF < length M"
    and nv: "MF \<notin> set V" and na: "\<not> hasPreserveNoneAttr (M ! MF)"
    and calls: "\<forall>U \<in> set (users (M ! MF)). isa_CallBase U"
    and p: "push_callers MMI M (V @ [MF]) (users (M ! MF)) = Inr pushed"
  from inv have sh: "shape M0 M" by (simp add: expansion_inv_def)
  from sh lt have lt0: "MF < length M0" by (simp add: shape_def)
  from calls have "allUsersAreCalls (M ! MF)"
    by (simp add: allUsersAreCalls_def list_all_iff)
  then have c0: "allUsersAreCalls (M0 ! MF)"
    using shape_nth(3) [OF sh lt0] by simp
  have other: "hasPreserveNoneAttr
      (M[MF := addFnAttr ''no_callee_saved_registers'' ''1'' (M ! MF)] ! i) =
      hasPreserveNoneAttr (M ! i)" if "i \<in> set V" for i
  proof -
    from that nv have "i \<noteq> MF" by auto
    then show ?thesis by simp
  qed
  show "expansion_inv MMI M0
          (M[MF := addFnAttr ''no_callee_saved_registers'' ''1'' (M ! MF)], V @ [MF], N + 1)
          (WL @ pushed)"
    unfolding expansion_inv_def
    using inv shape_infect [OF sh lt na] c0 nv pushed_have_machine_functions [OF p]
    by (auto simp: expansion_inv_def other)
next
  fix M V N MF WL pushed
  assume inv: "expansion_inv MMI M0 (M, V, N) (Some MF # WL)" and lt: "MF < length M"
    and p: "push_callers MMI M (V @ [MF]) (users (M ! MF)) = Inr pushed"
  from inv have sh: "shape M0 M" by (simp add: expansion_inv_def)
  from sh lt have lt0: "MF < length M0" by (simp add: shape_def)
  from push_callers_all_calls [OF p] have "allUsersAreCalls (M ! MF)"
    by (simp add: allUsersAreCalls_def list_all_iff)
  then have c0: "allUsersAreCalls (M0 ! MF)"
    using shape_nth(3) [OF sh lt0] by simp
  show "expansion_inv MMI M0 (M, V @ [MF], N) (WL @ pushed)"
    unfolding expansion_inv_def
    using inv c0 pushed_have_machine_functions [OF p]
    by (auto simp: expansion_inv_def)
qed


lemma second_loop_changes_nothing:
  assumes first: "MFWorkList_loop MMI (M0, [], N0) (seeds MMI M0) = Inr (M1, V1, N1)"
  shows "\<exists>V2. MFWorkList_loop MMI (M1, [], N1) (seeds MMI M1) = Inr (M1, V2, N1)"
proof -
  from traversal_inv_final [OF first] have
    sh: "shape M0 M1" and so: "sound M0 M1 V1" and vo: "visited_ok M0 M1 V1"
    and cl: "closed_under_callers M0 M1 V1 []" and sp: "seeds_pending MMI M0 V1 []"
    by (simp_all add: traversal_inv_def)
  from expansion_inv_final [OF first] have
    mf: "\<forall>i \<in> set V1. i \<in> MMI"
    and ex: "\<forall>i \<in> set V1. hasPreserveNoneAttr (M1 ! i) \<longrightarrow> allUsersAreCalls (M0 ! i)"
    by (simp_all add: expansion_inv_def)
  from sh have len: "length M1 = length M0" by (simp add: shape_def)
  from vo have in_range: "i < length M0" if "i \<in> set V1" for i
    using that by (simp add: visited_ok_def)
  let ?J = "\<lambda>S (WL :: fref option list). case S of (M :: Module, V :: fref list, N :: 64 word) \<Rightarrow>
              M = M1 \<and> N = N1 \<and> (\<forall>x \<in> set WL. \<exists>c. x = Some c \<and> c \<in> set V1)"
  have "\<exists>S'. MFWorkList_loop MMI (M1, [], N1) (seeds MMI M1) = Inr S' \<and> ?J S' []"
  proof (rule MFWorkList_loop_returns [where J = ?J])
    have "c \<in> set V1" if "Some c \<in> set (seeds MMI M1)" for c
    proof -
      from that have c: "c < length M0" "c \<in> MMI" "hasPreserveNoneAttr (M1 ! c)"
        by (auto simp: seeds_def getMachineFunction_def len split: if_splits)
      with so have "hasPreserveNoneAttr (M0 ! c) \<or> c \<in> set V1"
        unfolding sound_def by blast
      with sp c show ?thesis
        unfolding seeds_pending_def by auto
    qed
    then show "?J (M1, [], N1) (seeds MMI M1)"
      by (auto simp: seeds_def)
  next
    fix M V N x WL
    assume "?J (M, V, N) (x # WL)"
    then show "\<exists>MF. x = Some MF \<and> MF < length M"
      using in_range len by auto
  next
    fix M V N MF WL
    assume "?J (M, V, N) (Some MF # WL)"
    then show "?J (M, V, N) WL" by simp
  next
    fix M V N MF WL
    assume "?J (M, V, N) (Some MF # WL)"
    then show "?J (M, V @ [MF], N) WL" by simp
  next
    fix M V N MF WL
    assume j: "?J (M, V, N) (Some MF # WL)" and na: "\<not> hasPreserveNoneAttr (M ! MF)"
      and i: "isInfectableFunc (M ! MF)" and u: "\<forall>U \<in> set (users (M ! MF)). isa_CallBase U"
    from j have M: "M = M1" and v: "MF \<in> set V1" by simp_all
    from in_range [OF v] have lt0: "MF < length M0" .
    from u have "allUsersAreCalls (M1 ! MF)"
      by (simp add: allUsersAreCalls_def list_all_iff M)
    with i have "isInfectableFunc (M0 ! MF) \<and> allUsersAreCalls (M0 ! MF)"
      using shape_nth(2,3) [OF sh lt0] by (simp add: M)
    with vo v have "hasPreserveNoneAttr (M1 ! MF)"
      unfolding visited_ok_def by blast
    with na M show "\<exists>pushed. push_callers MMI M (V @ [MF]) (users (M ! MF)) = Inr pushed \<and>
      ?J (M[MF := addFnAttr ''no_callee_saved_registers'' ''1'' (M ! MF)], V @ [MF], N + 1)
         (WL @ pushed)"
      by simp
  next
    fix M V N MF WL
    assume j: "?J (M, V, N) (Some MF # WL)" and ha: "hasPreserveNoneAttr (M ! MF)"
    from j have M: "M = M1" and N: "N = N1" and v: "MF \<in> set V1"
      and wl: "\<forall>x \<in> set WL. \<exists>c. x = Some c \<and> c \<in> set V1" by simp_all
    from in_range [OF v] have lt0: "MF < length M0" .
    have us: "users (M1 ! MF) = users (M0 ! MF)"
      by (rule shape_nth(1) [OF sh lt0])
    from ex v ha M have calls: "\<forall>U \<in> set (users (M1 ! MF)). isa_CallBase U"
      by (simp add: allUsersAreCalls_def list_all_iff us)
    from cl v ha M have callers:
      "\<forall>c k. CallBase c k \<in> set (users (M1 ! MF)) \<longrightarrow>
         c < length M1 \<and> (hasPreserveNoneAttr (M1 ! c) \<or> c \<in> set V1)"
      unfolding closed_under_callers_def us len by auto
    with push_callers_succeeds [OF calls, of M1 MMI "V @ [MF]"] obtain pushed where
      p: "push_callers MMI M1 (V @ [MF]) (users (M1 ! MF)) = Inr pushed" by blast
    have "\<exists>c. x = Some c \<and> c \<in> set V1" if "x \<in> set pushed" for x
    proof -
      from push_callers_sound [OF p that] obtain c k where
        c: "CallBase c k \<in> set (users (M1 ! MF))" "x = getMachineFunction MMI c"
          "\<not> hasPreserveNoneAttr (M1 ! c)" by blast
      with callers have "c \<in> set V1" by blast
      with mf c(2) show ?thesis
        by (auto simp: getMachineFunction_def)
    qed
    with p wl M N show "\<exists>pushed. push_callers MMI M (V @ [MF]) (users (M ! MF)) = Inr pushed \<and>
      ?J (M, V @ [MF], N) (WL @ pushed)"
      by auto
  qed
  then show ?thesis by auto
qed

lemma second_run_changes_nothing:
  assumes "runOnModule flag MMI N0 M0 = Inr (r1, M1, N1)"
  shows "runOnModule flag MMI N1 M1 = Inr (r1, M1, N1)"
proof (cases "flag \<and> M0 \<noteq> []")
  case False
  with assms show ?thesis
    by (auto simp: runOnModule_def split: if_splits)
next
  case True
  then have flag: "flag = True" and ne: "M0 \<noteq> []" by simp_all
  from assms have run: "runOnModule True MMI N0 M0 = Inr (r1, M1, N1)"
    unfolding flag .
  from runOnModule_loop [OF run ne] obtain V1 where
    first: "MFWorkList_loop MMI (M0, [], N0) (seeds MMI M0) = Inr (M1, V1, N1)"
    and r1: "r1 = (N1 > 0)" by blast
  from traversal_inv_final [OF first] have "length M1 = length M0"
    by (simp add: traversal_inv_def shape_def)
  with ne have ne1: "M1 \<noteq> []" by auto
  from second_loop_changes_nothing [OF first] obtain V2 where
    "MFWorkList_loop MMI (M1, [], N1) (seeds MMI M1) = Inr (M1, V2, N1)" by blast
  with ne1 r1 show ?thesis
    by (simp add: runOnModule_def flag)
qed

text \<open>
  Claim C4 (run-local result and idempotence): \<^verbatim>\<open>runOnModule\<close> returns true exactly
  when the invocation infected a function, so a second run on the infected module
  changes nothing and returns false. The code does not keep to it. The result is read
  off the statistic, which counts for the whole process and is never reset. A second
  run changes nothing, but it returns what the first run returned (lemma
  \<open>second_run_changes_nothing\<close>): the first run on the scenario infects two
  functions and returns true, and the second run, on the module the first one left,
  changes nothing and returns true again.
\<close>

theorem second_run_reports_infection:
  "runOnModule True {0, 1, 2} 0 scenario_ABC = Inr (True, scenario_ABC_infected, 2) \<and>
   runOnModule True {0, 1, 2} 2 scenario_ABC_infected = Inr (True, scenario_ABC_infected, 2)"
proof -
  have "runOnModule True {0, 1, 2} 0 scenario_ABC = Inr (True, scenario_ABC_infected, 2)"
    unfolding run_scenario_ABC by (simp add: scenario_ABC_infected_def)
  moreover have
    "runOnModule True {0, 1, 2} 2 scenario_ABC_infected = Inr (True, scenario_ABC_infected, 2)"
    by (simp add: runOnModule_def scenario_ABC_infected_def scenario_defs)
  ultimately show ?thesis by simp
qed

section \<open>Completeness of infection\<close>

text \<open>
  Claim C6 as stated fails where the seed has no machine function: in the module
  \<open>declared_seed\<close> the seed \<open>C\<close> is a declaration with the attribute, the local
  function \<open>B\<close> calls it and has no other use, and the traversal, which skips every
  function without a machine function when it collects the seeds, leaves \<open>B\<close>
  without the attribute.
\<close>

theorem declared_seed_not_propagated:
  "hasPreserveNoneAttr (declared_seed ! 1) \<and>
   CallBase 0 CalledOperand \<in> set (users (declared_seed ! 1)) \<and>
   isInfectableFunc (declared_seed ! 0) \<and>
   allUsesAreDirectCalls (declared_seed ! 0) \<and>
   runOnModule True {0} 0 declared_seed = Inr (False, declared_seed, 0) \<and>
   \<not> hasPreserveNoneAttr (declared_seed ! 0)"
proof -
  have "runOnModule True {0} 0 declared_seed = Inr (False, declared_seed, 0)"
    by (simp add: runOnModule_def declared_seed_def scenario_defs)
  moreover have "hasPreserveNoneAttr (declared_seed ! 1)"
    "CallBase 0 CalledOperand \<in> set (users (declared_seed ! 1))"
    "isInfectableFunc (declared_seed ! 0)"
    "allUsesAreDirectCalls (declared_seed ! 0)"
    "\<not> hasPreserveNoneAttr (declared_seed ! 0)"
    by (simp_all add: declared_seed_def scenario_defs allUsesAreDirectCalls_def)
  ultimately show ?thesis by simp
qed

text \<open>
  Claim C6 (completeness of infection), amended: every function on a caller chain that
  starts at a function with the attribute and a machine function, and whose further
  functions are infectable, have all their uses as direct calls and have a machine
  function where they have the attribute already, carries the attribute when
  \<^verbatim>\<open>runOnModule\<close> (with the option on) returns. In the scenario where \<open>A\<close> calls
  \<open>B\<close>, \<open>B\<close> calls \<open>C\<close> and \<open>C\<close> is the seed, the functions with the attribute
  are \<open>A\<close>, \<open>B\<close> and \<open>C\<close>; with a weak \<open>B\<close> it is \<open>C\<close> alone.
\<close>

theorem infection_complete:
  "(caller_chain MMI M f \<longrightarrow> runOnModule True MMI N M = Inr (r, M', N')
      \<longrightarrow> hasPreserveNoneAttr (M' ! f)) \<and>
   (case runOnModule True {0, 1, 2} 0 scenario_ABC of
      Inl e \<Rightarrow> [] | Inr (r, M', n) \<Rightarrow> attributed M') = [''A'', ''B'', ''C''] \<and>
   (case runOnModule True {0, 1, 2} 0 scenario_B_weak of
      Inl e \<Rightarrow> [] | Inr (r, M', n) \<Rightarrow> attributed M') = [''C'']"
proof (intro conjI impI)
  assume chain: "caller_chain MMI M f" and run: "runOnModule True MMI N M = Inr (r, M', N')"
  from chain have "M \<noteq> []"
    by (induction rule: caller_chain.induct) auto
  from runOnModule_loop [OF run this] obtain V' where
    "MFWorkList_loop MMI (M, [], N) (seeds MMI M) = Inr (M', V', N')" by blast
  from caller_chain_attributed [OF this chain] show "hasPreserveNoneAttr (M' ! f)"
    by simp
qed (rule attributed_scenario_ABC attributed_scenario_B_weak)+

text \<open>The theorem at the scenario: \<open>A\<close> is on a caller chain from \<open>C\<close>.\<close>

theorem infection_complete_witness:
  "caller_chain {0, 1, 2} scenario_ABC 0 \<and>
   runOnModule True {0, 1, 2} 0 scenario_ABC = Inr (True, scenario_ABC_infected, 2) \<and>
   hasPreserveNoneAttr (scenario_ABC_infected ! 0)"
proof -
  have c2: "caller_chain {0, 1, 2} scenario_ABC 2"
    by (rule caller_chain.start) (simp_all add: scenario_ABC_def scenario_defs)
  have c1: "caller_chain {0, 1, 2} scenario_ABC 1"
    by (rule caller_chain.call [OF c2])
      (simp_all add: scenario_ABC_def scenario_defs allUsesAreDirectCalls_def isDirectCall_def)
  have c0: "caller_chain {0, 1, 2} scenario_ABC 0"
    by (rule caller_chain.call [OF c1])
      (simp_all add: scenario_ABC_def scenario_defs allUsesAreDirectCalls_def isDirectCall_def)
  have run: "runOnModule True {0, 1, 2} 0 scenario_ABC = Inr (True, scenario_ABC_infected, 2)"
    unfolding run_scenario_ABC by (simp add: scenario_ABC_infected_def)
  from infection_complete [of "{0, 1, 2}" scenario_ABC 0 0 True scenario_ABC_infected 2]
    c0 run
  have "hasPreserveNoneAttr (scenario_ABC_infected ! 0)" by blast
  with c0 run show ?thesis by simp
qed

section \<open>Termination of the traversal\<close>

lemma unvisited_decreases:
  assumes "MF < (n::nat)" "MF \<notin> set V"
  shows "card ({..<n} - set (V @ [MF])) < card ({..<n} - set V)"
proof -
  have e: "{..<n} - set (V @ [MF]) = ({..<n} - set V) - {MF}"
    by auto
  have m: "MF \<in> {..<n} - set V"
    using assms by simp
  show ?thesis
    unfolding e by (rule card_Diff1_less [OF _ m]) simp
qed

lemma MFWorkList_loop_rel_decreases:
  assumes "MFWorkList_loop_rel a b"
  shows "(a, b) \<in> measures
           [\<lambda>(MMI, (M, Visited, Num), WL). card ({..<length M} - set Visited),
            \<lambda>(MMI, (M, Visited, Num), WL). length WL]"
  using assms
  by (cases rule: MFWorkList_loop_rel.cases) (simp_all add: unvisited_decreases not_le del: set_append)

lemma MFWorkList_loop_dom_all: "MFWorkList_loop_dom x"
proof -
  have "wf {(a, b). MFWorkList_loop_rel a b}"
    by (rule wf_subset [OF wf_measures]) (auto dest: MFWorkList_loop_rel_decreases)
  then have "wfp MFWorkList_loop_rel"
    by (simp add: wfp_def)
  then show ?thesis
    by (rule accp_wfpD)
qed

lemma visited_distinct:
  assumes "MFWorkList_loop MMI (M, V, N) WL = Inr (M', V', N')"
    and "distinct V" "\<forall>i \<in> set V. i < length M"
  shows "length M' = length M \<and> distinct V' \<and> (\<forall>i \<in> set V'. i < length M)"
proof -
  let ?I = "\<lambda>S (WL :: fref option list). case S of (M1 :: Module, V1 :: fref list, N1 :: 64 word) \<Rightarrow>
              length M1 = length M \<and> distinct V1 \<and> (\<forall>i \<in> set V1. i < length M)"
  have "?I (M', V', N') []"
    by (rule MFWorkList_loop_invariant [where I = ?I, OF assms(1)]) (use assms(2,3) in auto)
  then show ?thesis by simp
qed

lemma distinct_bounded_length:
  assumes "distinct V" "\<forall>i \<in> set V. i < (n::nat)"
  shows "length V \<le> n"
proof -
  from assms(2) have "set V \<subseteq> {..<n}" by auto
  then have "card (set V) \<le> card {..<n}"
    by (intro card_mono) auto
  with assms(1) show ?thesis
    by (simp add: distinct_card)
qed

text \<open>
  Claim C7 (termination of propagation): on every module, with or without cycles in the
  call graph, the worklist loop terminates, and it processes each function at most once.
  Every state of the loop lies in the domain of its recursion, that is, the chain of
  iterations that starts there is finite; and when the loop returns, the functions it
  marked visited and processed, in their order, are pairwise different and no more than
  the module has.
\<close>

theorem worklist_terminates_visiting_once:
  "MFWorkList_loop_dom (MMI, (M, [], N), WL) \<and>
   (MFWorkList_loop MMI (M, [], N) WL = Inr (M', V', N')
      \<longrightarrow> distinct V' \<and> length V' \<le> length M)"
proof (intro conjI impI)
  show "MFWorkList_loop_dom (MMI, (M, [], N), WL)"
    by (rule MFWorkList_loop_dom_all)
next
  assume "MFWorkList_loop MMI (M, [], N) WL = Inr (M', V', N')"
  from visited_distinct [OF this] have d: "distinct V'" "\<forall>i \<in> set V'. i < length M"
    by simp_all
  from d show "distinct V'" by simp
  from distinct_bounded_length [OF d] show "length V' \<le> length M" .
qed

text \<open>
  The theorem at a module with cycles: \<open>A\<close> and \<open>B\<close> call each other and themselves,
  and the seed calls itself.
\<close>

lemma loop_mutual_recursion:
  "MFWorkList_loop {0, 1, 2} (mutual_recursion, [], 0) (seeds {0, 1, 2} mutual_recursion) =
     Inr (mutual_recursion
            [0 := addFnAttr ''no_callee_saved_registers'' ''1'' (mutual_recursion ! 0),
             1 := addFnAttr ''no_callee_saved_registers'' ''1'' (mutual_recursion ! 1)],
          [2, 0, 1], 2)"
  by (simp add: mutual_recursion_def scenario_defs)

theorem worklist_terminates_visiting_once_witness:
  "MFWorkList_loop {0, 1, 2} (mutual_recursion, [], 0) (seeds {0, 1, 2} mutual_recursion) =
     Inr (mutual_recursion
            [0 := addFnAttr ''no_callee_saved_registers'' ''1'' (mutual_recursion ! 0),
             1 := addFnAttr ''no_callee_saved_registers'' ''1'' (mutual_recursion ! 1)],
          [2, 0, 1], 2) \<and>
   distinct [2, 0, 1 :: nat] \<and> length [2, 0, 1 :: nat] \<le> length mutual_recursion"
  using loop_mutual_recursion
    worklist_terminates_visiting_once [of "{0, 1, 2}" mutual_recursion 0
      "seeds {0, 1, 2} mutual_recursion"
      "mutual_recursion
            [0 := addFnAttr ''no_callee_saved_registers'' ''1'' (mutual_recursion ! 0),
             1 := addFnAttr ''no_callee_saved_registers'' ''1'' (mutual_recursion ! 1)]"
      "[2, 0, 1]" 2]
  by blast

section \<open>Null machine functions\<close>

lemma push_callers_no_null_deref: "push_callers MMI M V Us \<noteq> Inl NullDeref"
  by (induction MMI M V Us rule: push_callers.induct) (auto simp: Let_def split: sum.splits)

lemma MFWorkList_loop_no_null_deref:
  assumes "I S WL"
    and "\<And>M V N WL. \<not> I (M, V, N) (None # WL)"
    and "\<And>M V N MF WL. I (M, V, N) (Some MF # WL) \<Longrightarrow> MF < length M \<Longrightarrow> MF \<in> set V
           \<Longrightarrow> I (M, V, N) WL"
    and "\<And>M V N MF WL. I (M, V, N) (Some MF # WL) \<Longrightarrow> MF < length M \<Longrightarrow> MF \<notin> set V
           \<Longrightarrow> \<not> hasPreserveNoneAttr (M ! MF)
           \<Longrightarrow> \<not> isInfectableFunc (M ! MF) \<or> (\<exists>U \<in> set (users (M ! MF)). \<not> isa_CallBase U)
           \<Longrightarrow> I (M, V @ [MF], N) WL"
    and "\<And>M V N MF WL pushed. I (M, V, N) (Some MF # WL) \<Longrightarrow> MF < length M
           \<Longrightarrow> MF \<notin> set V \<Longrightarrow> \<not> hasPreserveNoneAttr (M ! MF) \<Longrightarrow> isInfectableFunc (M ! MF)
           \<Longrightarrow> \<forall>U \<in> set (users (M ! MF)). isa_CallBase U
           \<Longrightarrow> push_callers MMI M (V @ [MF]) (users (M ! MF)) = Inr pushed
           \<Longrightarrow> I (M[MF := addFnAttr ''no_callee_saved_registers'' ''1'' (M ! MF)],
                  V @ [MF], N + 1) (WL @ pushed)"
    and "\<And>M V N MF WL pushed. I (M, V, N) (Some MF # WL) \<Longrightarrow> MF < length M
           \<Longrightarrow> MF \<notin> set V \<Longrightarrow> hasPreserveNoneAttr (M ! MF)
           \<Longrightarrow> push_callers MMI M (V @ [MF]) (users (M ! MF)) = Inr pushed
           \<Longrightarrow> I (M, V @ [MF], N) (WL @ pushed)"
  shows "MFWorkList_loop MMI S WL \<noteq> Inl NullDeref"
proof -
  note null = assms(2) and skip = assms(3) and reject = assms(4) and infect = assms(5)
    and expand = assms(6)
  have "MMI' = MMI \<Longrightarrow> I S WL \<Longrightarrow> MFWorkList_loop MMI' S WL \<noteq> Inl NullDeref" for MMI'
  proof (induction MMI' S WL rule: MFWorkList_loop.induct)
    case (1 MMI' M Visited Num)
    then show ?case by simp
  next
    case (2 MMI' M Visited Num WL)
    with null show ?case by blast
  next
    case (3 MMI' M V N MF WL)
    note eq = "3.prems"(1) and inv = "3.prems"(2)
    show ?case
    proof (cases "MF < length M")
      case False
      then show ?thesis by simp
    next
      case lt: True
      then have nle: "\<not> length M \<le> MF" by simp
      show ?thesis
      proof (cases "MF \<in> set V")
        case True
        from "3.IH"(1) [OF nle True eq skip [OF inv lt True]] show ?thesis
          unfolding loop_skip [OF lt True] .
      next
        case nv: False
        show ?thesis
        proof (cases "\<not> hasPreserveNoneAttr (M ! MF) \<and>
                  (\<not> isInfectableFunc (M ! MF) \<or> (\<exists>U \<in> set (users (M ! MF)). \<not> isa_CallBase U))")
          case True
          from True have a: "\<not> hasPreserveNoneAttr (M ! MF)"
            and b: "\<not> isInfectableFunc (M ! MF) \<or> (\<exists>U \<in> set (users (M ! MF)). \<not> isa_CallBase U)"
            by blast+
          from "3.IH"(2) [OF nle nv True eq reject [OF inv lt nv a b]] show ?thesis
            unfolding loop_reject [OF lt nv a b] .
        next
          case el: False
          have nn: "push_callers MMI' M (V @ [MF]) (users (M ! MF)) \<noteq> Inl NullDeref"
            by (rule push_callers_no_null_deref)
          show ?thesis
          proof (cases "hasPreserveNoneAttr (M ! MF)")
            case True
            from True have n2: "\<not> \<not> hasPreserveNoneAttr (M ! MF)" by simp
            show ?thesis
            proof (cases "push_callers MMI' M (V @ [MF]) (users (M ! MF))")
              case (Inl e)
              with nn show ?thesis
                unfolding loop_expand [OF lt nv True] by simp
            next
              case (Inr pushed)
              then have p: "push_callers MMI M (V @ [MF]) (users (M ! MF)) = Inr pushed"
                unfolding eq .
              from "3.IH"(4) [OF nle nv el Inr n2 eq expand [OF inv lt nv True p]]
              show ?thesis
                unfolding loop_expand [OF lt nv True] Inr by simp
            qed
          next
            case False
            from el False have i: "isInfectableFunc (M ! MF)"
              and u: "\<forall>U \<in> set (users (M ! MF)). isa_CallBase U"
              by blast+
            show ?thesis
            proof (cases "push_callers MMI' M (V @ [MF]) (users (M ! MF))")
              case (Inl e)
              with nn show ?thesis
                unfolding loop_infect [OF lt nv False i u] by simp
            next
              case (Inr pushed)
              then have p: "push_callers MMI M (V @ [MF]) (users (M ! MF)) = Inr pushed"
                unfolding eq .
              from "3.IH"(3) [OF nle nv el Inr False eq infect [OF inv lt nv False i u p]]
              show ?thesis
                unfolding loop_infect [OF lt nv False i u] Inr by simp
            qed
          qed
        qed
      qed
    qed
  qed
  from this [OF refl assms(1)] show ?thesis .
qed

lemma MFWorkList_loop_result:
  assumes "I S WL"
    and "\<And>M V N. I (M, V, N) [] \<Longrightarrow> Q (Inr (M, V, N))"
    and "\<And>M V N WL. I (M, V, N) (None # WL) \<Longrightarrow> Q (Inl NullDeref)"
    and "\<And>M V N MF WL. I (M, V, N) (Some MF # WL) \<Longrightarrow> length M \<le> MF \<Longrightarrow> Q (Inl Dangling)"
    and "\<And>M V N MF WL. I (M, V, N) (Some MF # WL) \<Longrightarrow> MF < length M \<Longrightarrow> MF \<in> set V
           \<Longrightarrow> I (M, V, N) WL"
    and "\<And>M V N MF WL. I (M, V, N) (Some MF # WL) \<Longrightarrow> MF < length M \<Longrightarrow> MF \<notin> set V
           \<Longrightarrow> \<not> hasPreserveNoneAttr (M ! MF)
           \<Longrightarrow> \<not> isInfectableFunc (M ! MF) \<or> (\<exists>U \<in> set (users (M ! MF)). \<not> isa_CallBase U)
           \<Longrightarrow> I (M, V @ [MF], N) WL"
    and "\<And>M V N MF WL. I (M, V, N) (Some MF # WL) \<Longrightarrow> MF < length M
           \<Longrightarrow> MF \<notin> set V \<Longrightarrow> \<not> hasPreserveNoneAttr (M ! MF) \<Longrightarrow> isInfectableFunc (M ! MF)
           \<Longrightarrow> \<forall>U \<in> set (users (M ! MF)). isa_CallBase U
           \<Longrightarrow> (case push_callers MMI M (V @ [MF]) (users (M ! MF)) of
                  Inl e \<Rightarrow> Q (Inl e)
                | Inr pushed \<Rightarrow>
                    I (M[MF := addFnAttr ''no_callee_saved_registers'' ''1'' (M ! MF)],
                       V @ [MF], N + 1) (WL @ pushed))"
    and "\<And>M V N MF WL. I (M, V, N) (Some MF # WL) \<Longrightarrow> MF < length M
           \<Longrightarrow> MF \<notin> set V \<Longrightarrow> hasPreserveNoneAttr (M ! MF)
           \<Longrightarrow> (case push_callers MMI M (V @ [MF]) (users (M ! MF)) of
                  Inl e \<Rightarrow> Q (Inl e)
                | Inr pushed \<Rightarrow> I (M, V @ [MF], N) (WL @ pushed))"
  shows "Q (MFWorkList_loop MMI S WL)"
proof -
  note final = assms(2) and null = assms(3) and dangling = assms(4) and skip = assms(5)
    and reject = assms(6) and infect = assms(7) and expand = assms(8)
  have "MMI' = MMI \<Longrightarrow> I S WL \<Longrightarrow> Q (MFWorkList_loop MMI' S WL)" for MMI'
  proof (induction MMI' S WL rule: MFWorkList_loop.induct)
    case (1 MMI' M Visited Num)
    with final show ?case by simp
  next
    case (2 MMI' M Visited Num WL)
    with null show ?case by simp
  next
    case (3 MMI' M V N MF WL)
    note eq = "3.prems"(1) and inv = "3.prems"(2)
    show ?case
    proof (cases "MF < length M")
      case False
      then have "length M \<le> MF" by simp
      from dangling [OF inv this] this show ?thesis by simp
    next
      case lt: True
      then have nle: "\<not> length M \<le> MF" by simp
      show ?thesis
      proof (cases "MF \<in> set V")
        case True
        from "3.IH"(1) [OF nle True eq skip [OF inv lt True]] show ?thesis
          unfolding loop_skip [OF lt True] .
      next
        case nv: False
        show ?thesis
        proof (cases "\<not> hasPreserveNoneAttr (M ! MF) \<and>
                  (\<not> isInfectableFunc (M ! MF) \<or> (\<exists>U \<in> set (users (M ! MF)). \<not> isa_CallBase U))")
          case True
          from True have a: "\<not> hasPreserveNoneAttr (M ! MF)"
            and b: "\<not> isInfectableFunc (M ! MF) \<or> (\<exists>U \<in> set (users (M ! MF)). \<not> isa_CallBase U)"
            by blast+
          from "3.IH"(2) [OF nle nv True eq reject [OF inv lt nv a b]] show ?thesis
            unfolding loop_reject [OF lt nv a b] .
        next
          case el: False
          show ?thesis
          proof (cases "hasPreserveNoneAttr (M ! MF)")
            case True
            from True have n2: "\<not> \<not> hasPreserveNoneAttr (M ! MF)" by simp
            note step = expand [OF inv lt nv True]
            show ?thesis
            proof (cases "push_callers MMI' M (V @ [MF]) (users (M ! MF))")
              case (Inl e)
              with step show ?thesis
                unfolding loop_expand [OF lt nv True] eq by simp
            next
              case (Inr pushed)
              with step have "I (M, V @ [MF], N) (WL @ pushed)"
                unfolding eq by simp
              from "3.IH"(4) [OF nle nv el Inr n2 eq this]
              show ?thesis
                unfolding loop_expand [OF lt nv True] Inr by simp
            qed
          next
            case False
            from el False have i: "isInfectableFunc (M ! MF)"
              and u: "\<forall>U \<in> set (users (M ! MF)). isa_CallBase U"
              by blast+
            note step = infect [OF inv lt nv False i u]
            show ?thesis
            proof (cases "push_callers MMI' M (V @ [MF]) (users (M ! MF))")
              case (Inl e)
              with step show ?thesis
                unfolding loop_infect [OF lt nv False i u] eq by simp
            next
              case (Inr pushed)
              with step have
                "I (M[MF := addFnAttr ''no_callee_saved_registers'' ''1'' (M ! MF)],
                    V @ [MF], N + 1) (WL @ pushed)"
                unfolding eq by simp
              from "3.IH"(3) [OF nle nv el Inr False eq this]
              show ?thesis
                unfolding loop_infect [OF lt nv False i u] Inr by simp
            qed
          qed
        qed
      qed
    qed
  qed
  from this [OF refl assms(1)] show ?thesis .
qed

lemma attributed_or_visited_grows:
  "attributed_or_visited M0 M V \<Longrightarrow> attributed_or_visited M0 M (V @ [MF])"
  by (auto simp: attributed_or_visited_def)

lemma attributed_or_visited_infect:
  assumes "attributed_or_visited M0 M V" "length M = length M0"
  shows "attributed_or_visited M0
           (M[MF := addFnAttr ''no_callee_saved_registers'' ''1'' (M ! MF)]) (V @ [MF])"
  unfolding attributed_or_visited_def
proof (intro allI impI)
  fix i
  assume i: "i < length M0"
    and a: "hasPreserveNoneAttr
              (M[MF := addFnAttr ''no_callee_saved_registers'' ''1'' (M ! MF)] ! i)"
  from i assms(2) have "i < length M" by simp
  from a have "i = MF \<or> hasPreserveNoneAttr (M ! i)"
    unfolding hasAttr_infect [OF \<open>i < length M\<close>] .
  with assms(1) i show "hasPreserveNoneAttr (M0 ! i) \<or> i \<in> set (V @ [MF])"
    by (auto simp: attributed_or_visited_def)
qed

lemma expanded_in_range: "expanded MMI M g \<Longrightarrow> g < length M \<and> g \<in> MMI"
  by (induction rule: expanded.induct) simp_all

lemma popped_expanded:
  assumes sh: "shape M0 M" and av: "attributed_or_visited M0 M V"
    and c: "candidate MMI M0 MF" and nv: "MF \<notin> set V"
    and t: "hasPreserveNoneAttr (M ! MF) \<or>
            (isInfectableFunc (M ! MF) \<and> (\<forall>U \<in> set (users (M ! MF)). isa_CallBase U))"
  shows "expanded MMI M0 MF"
proof (cases "hasPreserveNoneAttr (M ! MF)")
  case True
  from c have lt0: "MF < length M0" and mf: "MF \<in> MMI"
    by (simp_all add: candidate_def)
  from av lt0 True nv have "hasPreserveNoneAttr (M0 ! MF)"
    by (auto simp: attributed_or_visited_def)
  with lt0 mf show ?thesis
    by (rule expanded.seed)
next
  case False
  from c have lt0: "MF < length M0" and mf: "MF \<in> MMI"
    by (simp_all add: candidate_def)
  from shape_nth(6) [OF sh lt0 False] have same: "M ! MF = M0 ! MF" .
  from False same have na: "\<not> hasPreserveNoneAttr (M0 ! MF)" by simp
  from t False same have i: "isInfectableFunc (M0 ! MF)"
    and u: "allUsersAreCalls (M0 ! MF)"
    by (simp_all add: allUsersAreCalls_def list_all_iff)
  from c na obtain g k where g: "expanded MMI M0 g" "CallBase MF k \<in> set (users (M0 ! g))"
    by (auto simp: candidate_def)
  from g lt0 mf na i u show ?thesis
    by (rule expanded.infected)
qed

lemma pushed_candidates:
  assumes pre: "pushed_callers_have_machine_functions MMI M0"
    and sh: "shape M0 M" and e: "expanded MMI M0 MF"
    and p: "push_callers MMI M V (users (M ! MF)) = Inr pushed"
    and x: "x \<in> set pushed"
  shows "\<exists>f. x = Some f \<and> candidate MMI M0 f"
proof -
  from expanded_in_range [OF e] have lt0: "MF < length M0" by simp
  from sh have len: "length M = length M0" by (simp add: shape_def)
  from push_callers_sound [OF p x] obtain c k where
    c: "CallBase c k \<in> set (users (M ! MF))" "x = getMachineFunction MMI c" "c < length M"
      "\<not> hasPreserveNoneAttr (M ! c)"
    by blast
  from c(1) have u: "CallBase c k \<in> set (users (M0 ! MF))"
    using shape_nth(1) [OF sh lt0] by simp
  from c(3) len have c0: "c < length M0" by simp
  have na: "\<not> hasPreserveNoneAttr (M0 ! c)"
  proof
    assume a: "hasPreserveNoneAttr (M0 ! c)"
    from shape_nth(5) [OF sh c0 a] a c(4) show False by simp
  qed
  from pre e u c0 na have mf: "c \<in> MMI"
    unfolding pushed_callers_have_machine_functions_def by blast
  with c(2) have "x = Some c"
    by (simp add: getMachineFunction_def)
  moreover from c0 mf e u have "candidate MMI M0 c"
    unfolding candidate_def by blast
  ultimately show ?thesis by blast
qed

lemma no_null_inv_init: "no_null_inv MMI M0 (M0, [], N) (seeds MMI M0)"
  unfolding no_null_inv_def seeds_def getMachineFunction_def
  by (auto simp: shape_refl attributed_or_visited_def candidate_def split: if_splits)

lemma loop_never_null:
  assumes pre: "pushed_callers_have_machine_functions MMI M0"
  shows "MFWorkList_loop MMI (M0, [], N) (seeds MMI M0) \<noteq> Inl NullDeref"
proof (rule MFWorkList_loop_no_null_deref [where I = "no_null_inv MMI M0"])
  show "no_null_inv MMI M0 (M0, [], N) (seeds MMI M0)"
    by (rule no_null_inv_init)
next
  fix M V N WL
  show "\<not> no_null_inv MMI M0 (M, V, N) (None # WL)"
    by (simp add: no_null_inv_def)
next
  fix M V N MF WL
  assume "no_null_inv MMI M0 (M, V, N) (Some MF # WL)"
  then show "no_null_inv MMI M0 (M, V, N) WL"
    by (simp add: no_null_inv_def)
next
  fix M V N MF WL
  assume "no_null_inv MMI M0 (M, V, N) (Some MF # WL)"
  then show "no_null_inv MMI M0 (M, V @ [MF], N) WL"
    by (simp add: no_null_inv_def attributed_or_visited_grows)
next
  fix M V N MF WL pushed
  assume inv: "no_null_inv MMI M0 (M, V, N) (Some MF # WL)" and lt: "MF < length M"
    and nv: "MF \<notin> set V" and na: "\<not> hasPreserveNoneAttr (M ! MF)"
    and i: "isInfectableFunc (M ! MF)" and u: "\<forall>U \<in> set (users (M ! MF)). isa_CallBase U"
    and p: "push_callers MMI M (V @ [MF]) (users (M ! MF)) = Inr pushed"
  from inv have sh: "shape M0 M" and av: "attributed_or_visited M0 M V"
    and c: "candidate MMI M0 MF"
    and wl: "\<forall>x \<in> set WL. \<exists>f. x = Some f \<and> candidate MMI M0 f"
    by (simp_all add: no_null_inv_def)
  from sh have len: "length M = length M0" by (simp add: shape_def)
  from i u have "expanded MMI M0 MF"
    by (intro popped_expanded [OF sh av c nv]) simp
  from pushed_candidates [OF pre sh this p] wl
  have "\<forall>x \<in> set (WL @ pushed). \<exists>f. x = Some f \<and> candidate MMI M0 f"
    by auto
  with shape_infect [OF sh lt na] attributed_or_visited_infect [OF av len]
  show "no_null_inv MMI M0
          (M[MF := addFnAttr ''no_callee_saved_registers'' ''1'' (M ! MF)], V @ [MF], N + 1)
          (WL @ pushed)"
    by (simp add: no_null_inv_def)
next
  fix M V N MF WL pushed
  assume inv: "no_null_inv MMI M0 (M, V, N) (Some MF # WL)" and lt: "MF < length M"
    and nv: "MF \<notin> set V" and ha: "hasPreserveNoneAttr (M ! MF)"
    and p: "push_callers MMI M (V @ [MF]) (users (M ! MF)) = Inr pushed"
  from inv have sh: "shape M0 M" and av: "attributed_or_visited M0 M V"
    and c: "candidate MMI M0 MF"
    and wl: "\<forall>x \<in> set WL. \<exists>f. x = Some f \<and> candidate MMI M0 f"
    by (simp_all add: no_null_inv_def)
  from ha have "expanded MMI M0 MF"
    by (intro popped_expanded [OF sh av c nv]) simp
  from pushed_candidates [OF pre sh this p] wl
  have "\<forall>x \<in> set (WL @ pushed). \<exists>f. x = Some f \<and> candidate MMI M0 f"
    by auto
  with sh attributed_or_visited_grows [OF av]
  show "no_null_inv MMI M0 (M, V @ [MF], N) (WL @ pushed)"
    by (simp add: no_null_inv_def)
qed

lemma expanded_attributed:
  assumes loop: "MFWorkList_loop MMI (M, [], N) (seeds MMI M) = Inr (M', V', N')"
    and e: "expanded MMI M f"
  shows "f \<in> set V' \<and> hasPreserveNoneAttr (M' ! f)"
proof -
  from traversal_inv_final [OF loop] have
    so: "sound M M' V'" and vo: "visited_ok M M' V'"
    and cl: "closed_under_callers M M' V' []" and sp: "seeds_pending MMI M V' []"
    by (simp_all add: traversal_inv_def)
  from e show ?thesis
  proof (induction rule: expanded.induct)
    case (seed f)
    with sp have v: "f \<in> set V'"
      by (simp add: seeds_pending_def)
    with vo seed show ?case
      by (simp add: visited_ok_def)
  next
    case (infected g f k)
    from infected.IH infected.hyps(2) cl have
      d: "hasPreserveNoneAttr (M' ! f) \<or> f \<in> set V'"
      unfolding closed_under_callers_def by auto
    have v: "f \<in> set V'"
    proof (rule ccontr)
      assume n: "f \<notin> set V'"
      with d have "hasPreserveNoneAttr (M' ! f)" by simp
      with so infected.hyps(3) n have "hasPreserveNoneAttr (M ! f)"
        unfolding sound_def by blast
      with infected.hyps(5) show False by simp
    qed
    from infected.hyps(6,7) vo v show ?case
      unfolding visited_ok_def by blast
  qed
qed

lemma loop_with_null_caller_does_not_return:
  assumes "\<not> pushed_callers_have_machine_functions MMI M"
  shows "MFWorkList_loop MMI (M, [], N) (seeds MMI M) \<noteq> Inr S'"
proof
  assume r: "MFWorkList_loop MMI (M, [], N) (seeds MMI M) = Inr S'"
  obtain M' V' N' where S': "S' = (M', V', N')" by (cases S')
  note loop = r [unfolded S']
  from assms obtain g c k where
    g: "expanded MMI M g" and u: "CallBase c k \<in> set (users (M ! g))" and c: "c < length M"
    and na: "\<not> hasPreserveNoneAttr (M ! c)" and mf: "c \<notin> MMI"
    unfolding pushed_callers_have_machine_functions_def by blast
  from traversal_inv_final [OF loop] have
    so: "sound M M' V'" and cl: "closed_under_callers M M' V' []"
    by (simp_all add: traversal_inv_def)
  from expansion_inv_final [OF loop] have vm: "\<forall>i \<in> set V'. i \<in> MMI"
    by (simp add: expansion_inv_def)
  from vm mf have nv: "c \<notin> set V'" by blast
  from expanded_attributed [OF loop g] u cl have
    "hasPreserveNoneAttr (M' ! c) \<or> c \<in> set V'"
    unfolding closed_under_callers_def by auto
  with nv have "hasPreserveNoneAttr (M' ! c)" by simp
  with so c nv have "hasPreserveNoneAttr (M ! c)"
    unfolding sound_def by blast
  with na show False by simp
qed

lemma loop_no_cast_error:
  assumes wf: "calls_well_formed MMI M0"
  shows "MFWorkList_loop MMI (M0, [], N) (seeds MMI M0) \<noteq> Inl BadCast \<and>
         MFWorkList_loop MMI (M0, [], N) (seeds MMI M0) \<noteq> Inl Dangling"
proof (rule MFWorkList_loop_result
    [where I = "no_cast_inv MMI M0" and Q = "\<lambda>r. r \<noteq> Inl BadCast \<and> r \<noteq> Inl Dangling"])
  show "no_cast_inv MMI M0 (M0, [], N) (seeds MMI M0)"
    unfolding no_cast_inv_def seeds_def getMachineFunction_def
    by (auto simp: shape_refl attributed_or_visited_def split: if_splits)
next
  fix M V N
  show "Inr (M, V, N) \<noteq> Inl BadCast \<and> Inr (M, V, N) \<noteq> Inl Dangling"
    by simp
next
  show "Inl NullDeref \<noteq> Inl BadCast \<and> Inl NullDeref \<noteq> Inl Dangling"
    by simp
next
  fix M V N MF WL
  assume inv: "no_cast_inv MMI M0 (M, V, N) (Some MF # WL)" and ge: "length M \<le> MF"
  from inv have "MF < length M0" "length M = length M0"
    by (simp_all add: no_cast_inv_def shape_def)
  with ge show "Inl Dangling \<noteq> Inl BadCast \<and> Inl Dangling \<noteq> Inl Dangling"
    by simp
next
  fix M V N MF WL
  assume "no_cast_inv MMI M0 (M, V, N) (Some MF # WL)"
  then show "no_cast_inv MMI M0 (M, V, N) WL"
    by (simp add: no_cast_inv_def)
next
  fix M V N MF WL
  assume "no_cast_inv MMI M0 (M, V, N) (Some MF # WL)"
  then show "no_cast_inv MMI M0 (M, V @ [MF], N) WL"
    by (simp add: no_cast_inv_def attributed_or_visited_grows)
next
  fix M V N MF WL
  assume inv: "no_cast_inv MMI M0 (M, V, N) (Some MF # WL)" and lt: "MF < length M"
    and nv: "MF \<notin> set V" and na: "\<not> hasPreserveNoneAttr (M ! MF)"
    and u: "\<forall>U \<in> set (users (M ! MF)). isa_CallBase U"
  from inv have sh: "shape M0 M" and av: "attributed_or_visited M0 M V"
    and wl: "\<forall>c. Some c \<in> set WL \<longrightarrow> c < length M0 \<and> c \<in> MMI"
    by (simp_all add: no_cast_inv_def)
  from sh have len: "length M = length M0" by (simp add: shape_def)
  from lt len have lt0: "MF < length M0" by simp
  from wf lt0 have "\<forall>c k. CallBase c k \<in> set (users (M0 ! MF)) \<longrightarrow> c < length M0"
    unfolding calls_well_formed_def by blast
  then have r: "\<forall>c k. CallBase c k \<in> set (users (M ! MF)) \<longrightarrow> c < length M"
    using shape_nth(1) [OF sh lt0] len by simp
  from push_callers_succeeds [OF u r] obtain pushed where
    p: "push_callers MMI M (V @ [MF]) (users (M ! MF)) = Inr pushed" by blast
  have "c < length M0 \<and> c \<in> MMI" if "Some c \<in> set pushed" for c
  proof -
    from push_callers_sound [OF p that] obtain c' where
      "Some c = getMachineFunction MMI c'" "c' < length M" by blast
    then show ?thesis
      by (auto simp: getMachineFunction_def len split: if_splits)
  qed
  with wl shape_infect [OF sh lt na] attributed_or_visited_infect [OF av len]
  have "no_cast_inv MMI M0
          (M[MF := addFnAttr ''no_callee_saved_registers'' ''1'' (M ! MF)], V @ [MF], N + 1)
          (WL @ pushed)"
    by (auto simp: no_cast_inv_def)
  with p show "case push_callers MMI M (V @ [MF]) (users (M ! MF)) of
      Inl e \<Rightarrow> Inl e \<noteq> Inl BadCast \<and> Inl e \<noteq> Inl Dangling
    | Inr pushed \<Rightarrow>
        no_cast_inv MMI M0
          (M[MF := addFnAttr ''no_callee_saved_registers'' ''1'' (M ! MF)], V @ [MF], N + 1)
          (WL @ pushed)"
    by simp
next
  fix M V N MF WL
  assume inv: "no_cast_inv MMI M0 (M, V, N) (Some MF # WL)" and lt: "MF < length M"
    and nv: "MF \<notin> set V" and ha: "hasPreserveNoneAttr (M ! MF)"
  from inv have sh: "shape M0 M" and av: "attributed_or_visited M0 M V"
    and wl: "\<forall>c. Some c \<in> set WL \<longrightarrow> c < length M0 \<and> c \<in> MMI"
    and mf: "MF \<in> MMI"
    by (simp_all add: no_cast_inv_def)
  from sh have len: "length M = length M0" by (simp add: shape_def)
  from lt len have lt0: "MF < length M0" by simp
  from av lt0 ha nv have "hasPreserveNoneAttr (M0 ! MF)"
    by (auto simp: attributed_or_visited_def)
  with wf lt0 mf have "allUsersAreCalls (M0 ! MF)"
    unfolding calls_well_formed_def by blast
  then have u: "\<forall>U \<in> set (users (M ! MF)). isa_CallBase U"
    using shape_nth(1) [OF sh lt0] by (simp add: allUsersAreCalls_def list_all_iff)
  from wf lt0 have "\<forall>c k. CallBase c k \<in> set (users (M0 ! MF)) \<longrightarrow> c < length M0"
    unfolding calls_well_formed_def by blast
  then have r: "\<forall>c k. CallBase c k \<in> set (users (M ! MF)) \<longrightarrow> c < length M"
    using shape_nth(1) [OF sh lt0] len by simp
  from push_callers_succeeds [OF u r] obtain pushed where
    p: "push_callers MMI M (V @ [MF]) (users (M ! MF)) = Inr pushed" by blast
  have "c < length M0 \<and> c \<in> MMI" if "Some c \<in> set pushed" for c
  proof -
    from push_callers_sound [OF p that] obtain c' where
      "Some c = getMachineFunction MMI c'" "c' < length M" by blast
    then show ?thesis
      by (auto simp: getMachineFunction_def len split: if_splits)
  qed
  with wl sh attributed_or_visited_grows [OF av]
  have "no_cast_inv MMI M0 (M, V @ [MF], N) (WL @ pushed)"
    by (auto simp: no_cast_inv_def)
  with p show "case push_callers MMI M (V @ [MF]) (users (M ! MF)) of
      Inl e \<Rightarrow> Inl e \<noteq> Inl BadCast \<and> Inl e \<noteq> Inl Dangling
    | Inr pushed \<Rightarrow> no_cast_inv MMI M0 (M, V @ [MF], N) (WL @ pushed)"
    by simp
qed

lemma loop_null_deref:
  assumes "\<not> pushed_callers_have_machine_functions MMI M" "calls_well_formed MMI M"
  shows "MFWorkList_loop MMI (M, [], N) (seeds MMI M) = Inl NullDeref"
proof (cases "MFWorkList_loop MMI (M, [], N) (seeds MMI M)")
  case (Inl e)
  with loop_no_cast_error [OF assms(2), of N] show ?thesis
    by (cases e) simp_all
next
  case (Inr S')
  with loop_with_null_caller_does_not_return [OF assms(1)] show ?thesis
    by simp
qed

lemma pushed_callers_nonempty:
  "\<not> pushed_callers_have_machine_functions MMI M \<Longrightarrow> M \<noteq> []"
  unfolding pushed_callers_have_machine_functions_def by auto

lemma expanded_reachable: "expanded MMI M g \<Longrightarrow> reachable MMI M g"
  by (induction rule: expanded.induct) (auto intro: reachable.intros)

lemma stated_precondition_suffices:
  "callers_have_machine_functions MMI M \<Longrightarrow> pushed_callers_have_machine_functions MMI M"
  unfolding callers_have_machine_functions_def pushed_callers_have_machine_functions_def
  using expanded_reachable by blast

lemma run_caller_without_machine_function:
  "runOnModule True {1} 0 caller_without_machine_function = Inl NullDeref"
  by (simp add: runOnModule_def caller_without_machine_function_def scenario_defs)

text \<open>
  Claim C9 as stated fails where a caller without a machine function has the attribute
  already, and where it calls a function that the traversal reaches and does not
  expand. In the module \<open>attributed_caller\<close> the function \<open>B\<close> holds the call
  instruction that uses the seed \<open>C\<close> and has no machine function, so the precondition
  of the claim does not hold. Line 171 pushes a caller only where it has no attribute,
  so the null machine function of \<open>B\<close> is looked up and not put into the worklist,
  and the traversal returns. In the module \<open>rejected_between\<close> the function \<open>A\<close>
  has no machine function and calls \<open>B\<close>, which the traversal takes from the worklist
  and rejects at lines 159 to 163, before it walks through its users; the traversal
  returns there as well.
\<close>

theorem attributed_caller_needs_no_machine_function:
  "\<not> callers_have_machine_functions {1} attributed_caller \<and>
   push_callers {1} attributed_caller [1] (users (attributed_caller ! 1)) = Inr [] \<and>
   runOnModule True {1} 0 attributed_caller = Inr (False, attributed_caller, 0) \<and>
   \<not> callers_have_machine_functions {1, 2} rejected_between \<and>
   runOnModule True {1, 2} 0 rejected_between = Inr (False, rejected_between, 0)"
proof -
  have "reachable {1, 2} rejected_between 2"
    by (rule reachable.seed) (simp_all add: rejected_between_def scenario_defs)
  moreover have "CallBase 1 CalledOperand \<in> set (users (rejected_between ! 2))"
    "1 < length rejected_between"
    by (simp_all add: rejected_between_def local_function_def)
  ultimately have "reachable {1, 2} rejected_between 1"
    by (rule reachable.caller)
  moreover have "CallBase 0 CalledOperand \<in> set (users (rejected_between ! 1))"
    by (simp add: rejected_between_def external_function_def)
  moreover have "(0::nat) \<notin> {1, 2}"
    by simp
  ultimately have 4: "\<not> callers_have_machine_functions {1, 2} rejected_between"
    unfolding callers_have_machine_functions_def by blast
  have 5: "runOnModule True {1, 2} 0 rejected_between = Inr (False, rejected_between, 0)"
    by (simp add: runOnModule_def rejected_between_def scenario_defs)
  have "reachable {1} attributed_caller 1"
    by (rule reachable.seed) (simp_all add: attributed_caller_def scenario_defs)
  moreover have "CallBase 0 CalledOperand \<in> set (users (attributed_caller ! 1))"
    by (simp add: attributed_caller_def local_function_def)
  moreover have "(0::nat) \<notin> {1}"
    by simp
  ultimately have 1: "\<not> callers_have_machine_functions {1} attributed_caller"
    unfolding callers_have_machine_functions_def by blast
  have 2: "push_callers {1} attributed_caller [1] (users (attributed_caller ! 1)) = Inr []"
    by (simp add: attributed_caller_def scenario_defs)
  have 3: "runOnModule True {1} 0 attributed_caller = Inr (False, attributed_caller, 0)"
    by (simp add: runOnModule_def attributed_caller_def scenario_defs)
  from 1 2 3 4 5 show ?thesis by simp
qed

text \<open>
  Claim C9 (a caller must have a machine function), amended. For a call instruction that
  uses the function being expanded, the traversal looks up the machine function of the
  caller and puts it into the worklist without a null check where the caller has no
  attribute and its machine function is not visited; and it dereferences what it takes
  from the worklist, so a null element ends the run. The traversal never reaches the
  null dereference where every function without the attribute that holds a call
  instruction using a function whose users are walked through has a machine function.
  Where that condition fails, \<^verbatim>\<open>runOnModule\<close> (with the option on) does not
  return normally; and in a module in which every call instruction sits in a function
  of the module and the seeds have call instructions as their only users, it ends in the
  null dereference. The condition excludes the null dereference only: a run can still
  end in the cast of a user that is no call instruction.
\<close>

theorem null_deref_exact_condition:
  "(pushed_callers_have_machine_functions MMI M \<longrightarrow> runOnModule flag MMI N M \<noteq> Inl NullDeref) \<and>
   (\<not> pushed_callers_have_machine_functions MMI M \<longrightarrow> runOnModule True MMI N M \<noteq> Inr res) \<and>
   (\<not> pushed_callers_have_machine_functions MMI M \<and> calls_well_formed MMI M \<longrightarrow>
      runOnModule True MMI N M = Inl NullDeref) \<and>
   (c < length M \<longrightarrow>
      push_callers MMI M V [CallBase c k] =
        Inr (if (c \<in> MMI \<longrightarrow> c \<notin> set V) \<and> \<not> hasPreserveNoneAttr (M ! c)
             then [getMachineFunction MMI c] else [])) \<and>
   MFWorkList_loop MMI (M', V', N') (None # WL) = Inl NullDeref"
proof (intro conjI impI)
  assume "pushed_callers_have_machine_functions MMI M"
  from loop_never_null [OF this] show "runOnModule flag MMI N M \<noteq> Inl NullDeref"
    by (auto simp: runOnModule_def split: sum.splits)
next
  assume n: "\<not> pushed_callers_have_machine_functions MMI M"
  from loop_with_null_caller_does_not_return [OF n] pushed_callers_nonempty [OF n]
  show "runOnModule True MMI N M \<noteq> Inr res"
    by (auto simp: runOnModule_def split: sum.splits)
next
  assume "\<not> pushed_callers_have_machine_functions MMI M \<and> calls_well_formed MMI M"
  then have n: "\<not> pushed_callers_have_machine_functions MMI M"
    and wf: "calls_well_formed MMI M" by simp_all
  from loop_null_deref [OF n wf] pushed_callers_nonempty [OF n]
  show "runOnModule True MMI N M = Inl NullDeref"
    by (simp add: runOnModule_def)
next
  assume "c < length M"
  then show "push_callers MMI M V [CallBase c k] =
        Inr (if (c \<in> MMI \<longrightarrow> c \<notin> set V) \<and> \<not> hasPreserveNoneAttr (M ! c)
             then [getMachineFunction MMI c] else [])"
    by (auto simp: getMachineFunction_def)
next
  show "MFWorkList_loop MMI (M', V', N') (None # WL) = Inl NullDeref"
    by simp
qed

text \<open>
  The theorem at the scenario, where every function has a machine function, and at the
  module in which the caller \<open>B\<close> of the seed has neither the attribute nor a machine
  function.
\<close>

lemma condition_scenario_ABC: "pushed_callers_have_machine_functions {0, 1, 2} scenario_ABC"
  unfolding pushed_callers_have_machine_functions_def
proof (intro allI impI)
  fix g c k
  assume "expanded {0, 1, 2} scenario_ABC g"
    and u: "CallBase c k \<in> set (users (scenario_ABC ! g))"
  from expanded_in_range [OF this(1)] have "g = 0 \<or> g = 1 \<or> g = 2"
    by auto
  with u show "c \<in> {0, 1, 2}"
    by (auto simp: scenario_ABC_def local_function_def)
qed

lemma condition_caller_without_machine_function:
  "\<not> pushed_callers_have_machine_functions {1} caller_without_machine_function"
proof -
  have "expanded {1} caller_without_machine_function 1"
    by (rule expanded.seed) (simp_all add: caller_without_machine_function_def scenario_defs)
  moreover have "CallBase 0 CalledOperand \<in> set (users (caller_without_machine_function ! 1))"
    "0 < length caller_without_machine_function"
    "\<not> hasPreserveNoneAttr (caller_without_machine_function ! 0)"
    by (simp_all add: caller_without_machine_function_def scenario_defs)
  moreover have "(0::nat) \<notin> {1}"
    by simp
  ultimately show ?thesis
    unfolding pushed_callers_have_machine_functions_def by blast
qed

lemma well_formed_caller_without_machine_function:
  "calls_well_formed {1} caller_without_machine_function"
  unfolding calls_well_formed_def
proof (intro conjI allI impI)
  fix g c k
  assume "g < length caller_without_machine_function"
    and u: "CallBase c k \<in> set (users (caller_without_machine_function ! g))"
  then have "g = 0 \<or> g = 1"
    by (auto simp: caller_without_machine_function_def)
  with u show "c < length caller_without_machine_function"
    by (auto simp: caller_without_machine_function_def local_function_def)
next
  fix f
  assume "f \<in> {1::nat}"
  then show "allUsersAreCalls (caller_without_machine_function ! f)"
    by (simp add: caller_without_machine_function_def local_function_def
        allUsersAreCalls_def isa_CallBase_def)
qed

text \<open>
  The condition is about the null dereference alone: in the module whose seed has a
  user that is no call instruction it holds, and the run ends in the cast of line 167.
\<close>

lemma condition_does_not_exclude_bad_cast:
  "pushed_callers_have_machine_functions {0} seed_with_other_user \<and>
   runOnModule True {0} 0 seed_with_other_user = Inl BadCast"
proof -
  have "pushed_callers_have_machine_functions {0} seed_with_other_user"
    unfolding pushed_callers_have_machine_functions_def
  proof (intro allI impI)
    fix g c k
    assume "expanded {0} seed_with_other_user g"
      and u: "CallBase c k \<in> set (users (seed_with_other_user ! g))"
    from expanded_in_range [OF this(1)] have "g = 0"
      by simp
    with u show "c \<in> {0}"
      by (simp add: seed_with_other_user_def local_function_def)
  qed
  moreover have "runOnModule True {0} 0 seed_with_other_user = Inl BadCast"
    by (simp add: runOnModule_def seed_with_other_user_def scenario_defs)
  ultimately show ?thesis by simp
qed

theorem null_deref_exact_condition_witness:
  "pushed_callers_have_machine_functions {0, 1, 2} scenario_ABC \<and>
   runOnModule True {0, 1, 2} 0 scenario_ABC \<noteq> Inl NullDeref \<and>
   \<not> pushed_callers_have_machine_functions {1} caller_without_machine_function \<and>
   calls_well_formed {1} caller_without_machine_function \<and>
   runOnModule True {1} 0 caller_without_machine_function = Inl NullDeref \<and>
   push_callers {1} caller_without_machine_function [1] [CallBase 0 CalledOperand] = Inr [None]"
proof -
  note a = null_deref_exact_condition [of "{0, 1, 2}" scenario_ABC True 0]
  note b = null_deref_exact_condition
    [of "{1}" caller_without_machine_function _ 0 _ 0 "[1]" CalledOperand]
  from a condition_scenario_ABC have
    1: "runOnModule True {0, 1, 2} 0 scenario_ABC \<noteq> Inl NullDeref"
    by blast
  from b condition_caller_without_machine_function
    well_formed_caller_without_machine_function
  have 2: "runOnModule True {1} 0 caller_without_machine_function = Inl NullDeref"
    by blast
  have "(0::nat) < length caller_without_machine_function"
    by (simp add: caller_without_machine_function_def)
  with b have "push_callers {1} caller_without_machine_function [1] [CallBase 0 CalledOperand] =
      Inr (if ((0::nat) \<in> {1} \<longrightarrow> 0 \<notin> set [1::nat]) \<and>
              \<not> hasPreserveNoneAttr (caller_without_machine_function ! 0)
           then [getMachineFunction {1} 0] else [])"
    by blast
  then have
    3: "push_callers {1} caller_without_machine_function [1] [CallBase 0 CalledOperand] = Inr [None]"
    by (simp add: caller_without_machine_function_def scenario_defs)
  from 1 2 3 condition_scenario_ABC condition_caller_without_machine_function
    well_formed_caller_without_machine_function
  show ?thesis by simp
qed

section \<open>The registry writer\<close>

lemmas registry_defs =
  fresh_pass_def calls_ok_def lock_fails_def unlock_fails_def write_fails_def untouched_def
  local_function_def exists_file_def is_regular_file_def open_append_def append_data_def
  open_file_def lock_file_def unlock_file_def write_file_def close_file_def Let_def

lemma open_append_idem: "open_append (open_append s) = open_append s"
  by (cases s) (simp_all add: open_append_def)

lemma write_success:
  assumes "WritePreserveNoneList os P file F = Inr (r, P', file')"
    and "\<not> isDeclaration F" "getName F \<notin> FuncNameSet P"
    and "\<not> (exists_file (status file) \<and> \<not> is_regular_file (status file))"
    and "all_calls_succeed os"
  shows "r \<and> status file' = append_data (open_append (status file)) (getName F @ [CHR 0x0A]) \<and>
         FuncNameSet P' = insert (getName F) (FuncNameSet P)"
  using assms
  by (auto simp: WritePreserveNoneList_def all_calls_succeed_def Let_def open_file_def
      lock_file_def unlock_file_def write_file_def close_file_def open_append_idem
      split: if_splits option.splits)

lemma write_returns:
  assumes "write_ok os"
  shows "\<exists>res. WritePreserveNoneList os P file F = Inr res"
  using assms
  by (auto simp: WritePreserveNoneList_def Let_def split: option.splits)

text \<open>
  Two facts about the stream of line 234, which the source builds after it has taken
  the lock and destroys when it returns. The line is written when the lock has been
  released: in an invocation whose calls all succeed, the write is on record with the
  lock not held. And a failed write ends the process: the invocation does not return.
\<close>

lemma line_written_after_unlock:
  assumes "\<not> isDeclaration F" "getName F \<notin> FuncNameSet P"
    and "\<not> (FD P = 0 \<and> exists_file (status file) \<and> \<not> is_regular_file (status file))"
    and "all_calls_succeed os"
  shows "\<exists>P' file'. WritePreserveNoneList os P file F = Inr (True, P', file') \<and>
           writes file' = writes file @ [(getName F @ [CHR 0x0A], False)]"
  using assms
  by (auto simp: WritePreserveNoneList_def all_calls_succeed_def Let_def open_file_def
      lock_file_def unlock_file_def write_file_def close_file_def)

lemma failed_write_ends_process:
  assumes "\<not> isDeclaration F" "getName F \<notin> FuncNameSet P"
    and "\<not> (FD P = 0 \<and> exists_file (status file) \<and> \<not> is_regular_file (status file))"
    and "raw_fd_ostream_ok os" "openFileForReadWrite os \<noteq> None" "lock_ok os"
    and "\<not> write_ok os"
  shows "WritePreserveNoneList os P file F = Inl IOFailure"
  using assms
  by (auto simp: WritePreserveNoneList_def Let_def)




lemma write_keeps_names:
  "WritePreserveNoneList os P file F = Inr (r, P', file') \<Longrightarrow> FuncNameSet P \<subseteq> FuncNameSet P'"
  by (auto simp: WritePreserveNoneList_def Let_def split: if_splits option.splits)

lemma write_inserts_name:
  "WritePreserveNoneList os P file F = Inr (r, P', file') \<Longrightarrow> \<not> isDeclaration F \<Longrightarrow>
     getName F \<in> FuncNameSet P'"
  by (auto simp: WritePreserveNoneList_def Let_def split: if_splits option.splits)

lemma write_known_name:
  "getName G \<in> FuncNameSet P \<Longrightarrow> WritePreserveNoneList os P file G = Inr (False, P, file)"
  by (simp add: WritePreserveNoneList_def)

lemma run_writes_Cons:
  "run_writes ((os, F) # calls) P fs = Inr (rs, P', fs') \<longleftrightarrow>
     (\<exists>r P1 fs1 rs1. WritePreserveNoneList os P fs F = Inr (r, P1, fs1) \<and>
        run_writes calls P1 fs1 = Inr (rs1, P', fs') \<and> rs = r # rs1)"
  by (auto split: sum.splits)

lemma run_writes_keeps_names:
  "run_writes calls P fs = Inr (rs, P', fs') \<Longrightarrow> FuncNameSet P \<subseteq> FuncNameSet P'"
proof (induction calls arbitrary: P fs rs P' fs')
  case Nil
  then show ?case by simp
next
  case (Cons call calls)
  obtain os F where call: "call = (os, F)" by (cases call)
  from Cons.prems obtain r P1 fs1 rs1 where
    w: "WritePreserveNoneList os P fs F = Inr (r, P1, fs1)" and
    rw: "run_writes calls P1 fs1 = Inr (rs1, P', fs')"
    unfolding call run_writes_Cons by blast
  from write_keeps_names [OF w] Cons.IH [OF rw] show ?case by blast
qed

lemma write_failure_appends_nothing:
  assumes "WritePreserveNoneList os P file F = Inr (False, P', file')" "unlock_ok os"
  shows "writes file' = writes file \<and>
         (status file' = status file \<or> status file' = open_append (status file))"
  using assms
  by (auto simp: WritePreserveNoneList_def Let_def open_file_def close_file_def
      open_append_idem split: if_splits option.splits)

text \<open>
  Claim C10 (the writer's name set is not error-atomic): the name of a definition is in
  the name set after the invocation whatever the system calls did; every later
  invocation for a function of that name, after any further invocations, returns false
  and leaves the name set and the file as they are, without a system call; and an
  invocation that returned false without a failed unlock has written nothing. The
  invocations are those of one process: after a failed write, which ends the process,
  there is no later invocation.
\<close>

theorem writer_never_retries:
  assumes "\<not> isDeclaration F"
    and "WritePreserveNoneList os P file F = Inr (r, P1, file1)"
    and "run_writes calls P1 file1 = Inr (rs, P2, file2)"
    and "getName G = getName F"
  shows "getName F \<in> FuncNameSet P1 \<and>
         WritePreserveNoneList os' P2 file2 G = Inr (False, P2, file2) \<and>
         (\<not> r \<and> unlock_ok os \<longrightarrow>
            writes file1 = writes file \<and>
            (status file1 = status file \<or> status file1 = open_append (status file)))"
proof (intro conjI impI)
  show n: "getName F \<in> FuncNameSet P1"
    by (rule write_inserts_name [OF assms(2,1)])
  with run_writes_keeps_names [OF assms(3)] assms(4) have "getName G \<in> FuncNameSet P2"
    by auto
  then show "WritePreserveNoneList os' P2 file2 G = Inr (False, P2, file2)"
    by (rule write_known_name)
next
  assume a: "\<not> r \<and> unlock_ok os"
  with assms(2) have w: "WritePreserveNoneList os P file F = Inr (False, P1, file1)" by simp
  from a have u: "unlock_ok os" by simp
  from write_failure_appends_nothing [OF w u]
  show "writes file1 = writes file" 
    and "status file1 = status file \<or> status file1 = open_append (status file)"
    by simp_all
qed

text \<open>
  The theorem where the lock cannot be taken for \<open>f\<close>: a later invocation for \<open>f\<close>,
  with working system calls, writes nothing.
\<close>

theorem writer_never_retries_witness:
  "\<not> isDeclaration (local_function ''f'' C []) \<and>
   WritePreserveNoneList lock_fails fresh_pass (untouched NoFile) (local_function ''f'' C []) =
     Inr (False, \<lparr>FD = 3, FuncNameSet = {''f''}\<rparr>, untouched (RegularFile [])) \<and>
   run_writes [(calls_ok, local_function ''g'' C [])]
       \<lparr>FD = 3, FuncNameSet = {''f''}\<rparr> (untouched (RegularFile [])) =
     Inr ([True], \<lparr>FD = 3, FuncNameSet = {''g'', ''f''}\<rparr>,
          \<lparr>status = RegularFile (''g'' @ [CHR 0x0A]), lock_held = False,
           writes = [(''g'' @ [CHR 0x0A], False)]\<rparr>) \<and>
   WritePreserveNoneList calls_ok \<lparr>FD = 3, FuncNameSet = {''g'', ''f''}\<rparr>
       \<lparr>status = RegularFile (''g'' @ [CHR 0x0A]), lock_held = False,
        writes = [(''g'' @ [CHR 0x0A], False)]\<rparr> (local_function ''f'' C []) =
     Inr (False, \<lparr>FD = 3, FuncNameSet = {''g'', ''f''}\<rparr>,
          \<lparr>status = RegularFile (''g'' @ [CHR 0x0A]), lock_held = False,
           writes = [(''g'' @ [CHR 0x0A], False)]\<rparr>)"
proof -
  have d: "\<not> isDeclaration (local_function ''f'' C [])"
    by (simp add: local_function_def)
  have w: "WritePreserveNoneList lock_fails fresh_pass (untouched NoFile)
       (local_function ''f'' C []) =
     Inr (False, \<lparr>FD = 3, FuncNameSet = {''f''}\<rparr>, untouched (RegularFile []))"
    by (simp add: WritePreserveNoneList_def registry_defs)
  have rw: "run_writes [(calls_ok, local_function ''g'' C [])]
       \<lparr>FD = 3, FuncNameSet = {''f''}\<rparr> (untouched (RegularFile [])) =
     Inr ([True], \<lparr>FD = 3, FuncNameSet = {''g'', ''f''}\<rparr>,
          \<lparr>status = RegularFile (''g'' @ [CHR 0x0A]), lock_held = False,
           writes = [(''g'' @ [CHR 0x0A], False)]\<rparr>)"
    by (simp add: WritePreserveNoneList_def registry_defs)
  from writer_never_retries [OF d w rw refl, of calls_ok] d w rw show ?thesis
    by simp
qed

section \<open>The registry loader\<close>

lemma fold_insert_line: "fold insert_line ls S = S \<union> (trim ` set ls - {[]})"
  by (induction ls arbitrary: S) (auto simp: insert_line_def Let_def)

lemma load_first_read:
  assumes "\<not> isDeclaration F" "FuncNameSet P = {}"
    and "LoadPreserveNoneList read_ok P fs F = (changed, P', F')"
  shows "FuncNameSet P' =
           (case getFile read_ok fs of None \<Rightarrow> {} | Some buf \<Rightarrow> distinct_trimmed_lines buf)"
  using assms
  by (auto simp: LoadPreserveNoneList_def Let_def getFile_def exists_file_def
      is_regular_file_def fold_insert_line distinct_trimmed_lines_def
      split: if_splits option.splits file_status.splits)

text \<open>
  Claim C8 (loader parsing): at a read (the function is a definition, the name set is
  empty, the file is regular and readable), the name set becomes the set of the
  distinct trimmed lines of the file that are not empty.
\<close>

theorem loader_parses_lines:
  assumes "\<not> isDeclaration F" "FuncNameSet P = {}"
    and "LoadPreserveNoneList True P (RegularFile buf) F = (changed, P', F')"
  shows "FuncNameSet P' = distinct_trimmed_lines buf"
  using load_first_read [OF assms] by (simp add: getFile_def)

text \<open>
  The theorem at a file with the lines \<open>a\<close>, \<open>b\<close> between spaces, an empty line and
  \<open>b\<close> again.
\<close>

lemma trim_examples:
  "trim ''a'' = ''a''" "trim [CHR 0x20, CHR 0x20, CHR ''b'', CHR 0x20] = ''b''"
  "trim [] = []" "trim ''b'' = ''b''"
  by (simp_all add: trim_def ltrim_def rtrim_def whitespace_def)

theorem loader_parses_lines_witness:
  "\<not> isDeclaration (local_function ''b'' C []) \<and> FuncNameSet fresh_pass = {} \<and>
   LoadPreserveNoneList True fresh_pass
       (RegularFile (''a'' @ [CHR 0x0A] @ [CHR 0x20, CHR 0x20, CHR ''b'', CHR 0x20] @
                     [CHR 0x0A, CHR 0x0A] @ ''b'' @ [CHR 0x0A]))
       (local_function ''b'' C []) =
     (True, \<lparr>FD = 0, FuncNameSet = {''a'', ''b''}\<rparr>,
      addFnAttr ''no_callee_saved_registers'' ''1'' (local_function ''b'' C [])) \<and>
   distinct_trimmed_lines
       (''a'' @ [CHR 0x0A] @ [CHR 0x20, CHR 0x20, CHR ''b'', CHR 0x20] @
        [CHR 0x0A, CHR 0x0A] @ ''b'' @ [CHR 0x0A]) = {''a'', ''b''}"
proof -
  have d: "\<not> isDeclaration (local_function ''b'' C [])"
    by (simp add: local_function_def)
  have e: "FuncNameSet fresh_pass = {}"
    by (simp add: fresh_pass_def)
  have l: "LoadPreserveNoneList True fresh_pass
       (RegularFile (''a'' @ [CHR 0x0A] @ [CHR 0x20, CHR 0x20, CHR ''b'', CHR 0x20] @
                     [CHR 0x0A, CHR 0x0A] @ ''b'' @ [CHR 0x0A]))
       (local_function ''b'' C []) =
     (True, \<lparr>FD = 0, FuncNameSet = {''a'', ''b''}\<rparr>,
      addFnAttr ''no_callee_saved_registers'' ''1'' (local_function ''b'' C []))"
    by (simp add: LoadPreserveNoneList_def fresh_pass_def getFile_def exists_file_def
        is_regular_file_def insert_line_def trim_examples)
      (auto simp: local_function_def)
  from loader_parses_lines [OF d e l] d e l show ?thesis
    by simp
qed

text \<open>
  Claim C5 as stated fails after a failed first attempt: the first invocation finds no
  file and leaves the pass object as it was, with an empty name set, and the next
  invocation in that state reads the file that is there by then.
\<close>

theorem loader_reads_again_after_failed_attempt:
  "LoadPreserveNoneList True fresh_pass NoFile (local_function ''f'' C []) =
     (False, fresh_pass, local_function ''f'' C []) \<and>
   LoadPreserveNoneList True fresh_pass (RegularFile (''f'' @ [CHR 0x0A]))
       (local_function ''f'' C []) =
     (True, \<lparr>FD = 0, FuncNameSet = {''f''}\<rparr>,
      addFnAttr ''no_callee_saved_registers'' ''1'' (local_function ''f'' C []))"
proof -
  have t: "trim ''f'' = ''f''"
    by (simp add: trim_def ltrim_def rtrim_def whitespace_def)
  show ?thesis
    by (simp add: LoadPreserveNoneList_def fresh_pass_def getFile_def exists_file_def
        is_regular_file_def insert_line_def trim_examples t local_function_def)
qed

text \<open>
  Claim C5 (the loader reads while the name set is empty), amended: no invocation
  removes a name from the name set; an invocation with a non-empty name set leaves the
  pass object as it is and its result does not depend on the file or on the outcome of a
  read; an invocation for a definition with an empty name set reads the file, and the
  name set becomes what the file holds (nothing where the file is missing, not regular
  or unreadable).
\<close>

theorem loader_reads_only_while_empty:
  assumes "LoadPreserveNoneList read_ok P fs F = (changed, P', F')"
  shows "FuncNameSet P \<subseteq> FuncNameSet P' \<and>
         (FuncNameSet P \<noteq> {} \<longrightarrow>
            P' = P \<and> LoadPreserveNoneList read_ok' P fs' F = (changed, P', F')) \<and>
         (FuncNameSet P = {} \<and> \<not> isDeclaration F \<longrightarrow>
            FuncNameSet P' =
              (case getFile read_ok fs of None \<Rightarrow> {}
               | Some buf \<Rightarrow> distinct_trimmed_lines buf))"
proof (intro conjI impI)
  from assms show "FuncNameSet P \<subseteq> FuncNameSet P'"
    by (auto simp: LoadPreserveNoneList_def Let_def fold_insert_line
        split: if_splits option.splits)
next
  assume "FuncNameSet P \<noteq> {}"
  with assms show "P' = P"
    by (auto simp: LoadPreserveNoneList_def Let_def split: if_splits)
next
  assume "FuncNameSet P \<noteq> {}"
  with assms show "LoadPreserveNoneList read_ok' P fs' F = (changed, P', F')"
    by (auto simp: LoadPreserveNoneList_def Let_def split: if_splits)
next
  assume "FuncNameSet P = {} \<and> \<not> isDeclaration F"
  with load_first_read [OF _ _ assms]
  show "FuncNameSet P' =
          (case getFile read_ok fs of None \<Rightarrow> {} | Some buf \<Rightarrow> distinct_trimmed_lines buf)"
    by simp
qed

text \<open>The theorem at a name set that holds \<open>f\<close>: the file is not looked at.\<close>

theorem loader_reads_only_while_empty_witness:
  "LoadPreserveNoneList True \<lparr>FD = 0, FuncNameSet = {''f''}\<rparr> NoFile (local_function ''f'' C []) =
     (True, \<lparr>FD = 0, FuncNameSet = {''f''}\<rparr>,
      addFnAttr ''no_callee_saved_registers'' ''1'' (local_function ''f'' C [])) \<and>
   FuncNameSet \<lparr>FD = 0, FuncNameSet = {''f''}\<rparr> \<noteq> {} \<and>
   LoadPreserveNoneList False \<lparr>FD = 0, FuncNameSet = {''f''}\<rparr> (RegularFile ''g'')
       (local_function ''f'' C []) =
     (True, \<lparr>FD = 0, FuncNameSet = {''f''}\<rparr>,
      addFnAttr ''no_callee_saved_registers'' ''1'' (local_function ''f'' C []))"
proof -
  have l: "LoadPreserveNoneList True \<lparr>FD = 0, FuncNameSet = {''f''}\<rparr> NoFile
       (local_function ''f'' C []) =
     (True, \<lparr>FD = 0, FuncNameSet = {''f''}\<rparr>,
      addFnAttr ''no_callee_saved_registers'' ''1'' (local_function ''f'' C []))"
    by (simp add: LoadPreserveNoneList_def local_function_def)
  from loader_reads_only_while_empty [OF l, of False "RegularFile ''g''"] l
  show ?thesis by simp
qed

section \<open>The registry round trip\<close>

lemma split_not_Nil: "split s \<noteq> []"
  by (induction s) (auto split: list.splits)

lemma split_append_newline: "split (a @ CHR 0x0A # b) = split a @ split b"
proof (induction a)
  case Nil
  then show ?case by simp
next
  case (Cons c a)
  obtain l ls where s: "split a = l # ls"
    using split_not_Nil [of a] by (cases "split a") auto
  with Cons show ?case by simp
qed

lemma split_no_newline: "CHR 0x0A \<notin> set n \<Longrightarrow> split n = [n]"
  by (induction n) auto

lemma lines_after_append:
  assumes "c = [] \<or> last c = CHR 0x0A" "CHR 0x0A \<notin> set n"
  shows "set (split (c @ n @ [CHR 0x0A])) = insert n (set (split c))"
proof (cases "c = []")
  case True
  with assms(2) show ?thesis
    using split_append_newline [of n "[]"] by (simp add: split_no_newline)
next
  case False
  with assms(1) obtain c' where c: "c = c' @ [CHR 0x0A]"
    by (metis append_butlast_last_id)
  have "split (c @ n @ [CHR 0x0A]) = split c' @ split (n @ [CHR 0x0A])"
    using split_append_newline [of c' "n @ [CHR 0x0A]"] by (simp add: c)
  also have "split (n @ [CHR 0x0A]) = [n, []]"
    using split_append_newline [of n "[]"] assms(2) by (simp add: split_no_newline)
  finally have 1: "split (c @ n @ [CHR 0x0A]) = split c' @ [n, []]" .
  have 2: "split c = split c' @ [[]]"
    using split_append_newline [of c' "[]"] by (simp add: c)
  show ?thesis
    unfolding 1 2 by auto
qed

lemma names_after_append:
  assumes "c = [] \<or> last c = CHR 0x0A" "CHR 0x0A \<notin> set n"
  shows "distinct_trimmed_lines (c @ n @ [CHR 0x0A]) =
           distinct_trimmed_lines c \<union> ({trim n} - {[]})"
  unfolding distinct_trimmed_lines_def lines_after_append [OF assms]
  by auto

lemma clean_write_step:
  assumes cw: "clean_write (os, F)"
    and fs: "status fs \<noteq> OtherFile"
      "content (status fs) = [] \<or> last (content (status fs)) = CHR 0x0A"
    and inv: "distinct_trimmed_lines (content (status fs)) = trim ` FuncNameSet P - {[]}"
  shows "\<exists>r P1 fs1. WritePreserveNoneList os P fs F = Inr (r, P1, fs1) \<and>
           status fs1 \<noteq> OtherFile \<and>
           (content (status fs1) = [] \<or> last (content (status fs1)) = CHR 0x0A) \<and>
           FuncNameSet P1 = insert (getName F) (FuncNameSet P) \<and>
           distinct_trimmed_lines (content (status fs1)) = trim ` FuncNameSet P1 - {[]}"
proof (cases "getName F \<in> FuncNameSet P")
  case True
  then have "WritePreserveNoneList os P fs F = Inr (False, P, fs)"
    by (rule write_known_name)
  moreover from True have "insert (getName F) (FuncNameSet P) = FuncNameSet P"
    by auto
  ultimately have w: "WritePreserveNoneList os P fs F = Inr (False, P, fs)"
    and n: "FuncNameSet P = insert (getName F) (FuncNameSet P)"
    by simp_all
  show ?thesis
    by (intro exI conjI) (rule w fs n inv)+
next
  case False
  from cw have ok: "all_calls_succeed os" and d: "\<not> isDeclaration F"
    and n: "CHR 0x0A \<notin> set (getName F)"
    by (simp_all add: clean_write_def)
  from ok have "write_ok os"
    by (simp add: all_calls_succeed_def)
  from write_returns [OF this] obtain res where
    "WritePreserveNoneList os P fs F = Inr res"
    by blast
  then obtain r P1 fs1 where
    w: "WritePreserveNoneList os P fs F = Inr (r, P1, fs1)"
    by (cases res) simp
  from fs(1) have reg: "\<not> (exists_file (status fs) \<and> \<not> is_regular_file (status fs))"
    by (cases "status fs") (simp_all add: exists_file_def is_regular_file_def)
  from write_success [OF w d False reg ok] have
    "status fs1 = append_data (open_append (status fs)) (getName F @ [CHR 0x0A])"
    "FuncNameSet P1 = insert (getName F) (FuncNameSet P)"
    by simp_all
  moreover from fs(1) have
    "append_data (open_append (status fs)) (getName F @ [CHR 0x0A]) =
       RegularFile (content (status fs) @ getName F @ [CHR 0x0A])"
    by (cases "status fs") (simp_all add: append_data_def open_append_def content_def)
  ultimately have 1: "status fs1 = RegularFile (content (status fs) @ getName F @ [CHR 0x0A])"
    and 2: "FuncNameSet P1 = insert (getName F) (FuncNameSet P)"
    by simp_all
  from 1 have c: "content (status fs1) = content (status fs) @ getName F @ [CHR 0x0A]"
    by (simp add: content_def)
  have 3: "distinct_trimmed_lines (content (status fs1)) = trim ` FuncNameSet P1 - {[]}"
    unfolding c names_after_append [OF fs(2) n] inv 2 by blast
  from 1 have 4: "status fs1 \<noteq> OtherFile"
    by simp
  from c have 5: "content (status fs1) = [] \<or> last (content (status fs1)) = CHR 0x0A"
    by simp
  show ?thesis
    by (intro exI conjI) (rule w 4 5 2 3)+
qed

lemma run_writes_names:
  assumes "list_all clean_write calls"
    and "status fs \<noteq> OtherFile"
      "content (status fs) = [] \<or> last (content (status fs)) = CHR 0x0A"
    and "distinct_trimmed_lines (content (status fs)) = trim ` FuncNameSet P - {[]}"
  shows "\<exists>rs P' fs'. run_writes calls P fs = Inr (rs, P', fs') \<and>
           status fs' \<noteq> OtherFile \<and>
           FuncNameSet P' = FuncNameSet P \<union> (getName \<circ> snd) ` set calls \<and>
           distinct_trimmed_lines (content (status fs')) = trim ` FuncNameSet P' - {[]}"
  using assms
proof (induction calls arbitrary: P fs)
  case Nil
  have 1: "run_writes [] P fs = Inr ([], P, fs)"
    and 2: "FuncNameSet P = FuncNameSet P \<union> (getName \<circ> snd) ` set []"
    by simp_all
  show ?case
    by (intro exI conjI) (rule 1 Nil.prems(2) 2 Nil.prems(4))+
next
  case (Cons call calls)
  obtain os F where call: "call = (os, F)" by (cases call)
  from Cons.prems(1) call have cw: "clean_write (os, F)" and rest: "list_all clean_write calls"
    by simp_all
  from clean_write_step [OF cw Cons.prems(2,3,4)] obtain r P1 fs1 where
    w: "WritePreserveNoneList os P fs F = Inr (r, P1, fs1)" and
    st12: "status fs1 \<noteq> OtherFile"
      "content (status fs1) = [] \<or> last (content (status fs1)) = CHR 0x0A" and
    n1: "FuncNameSet P1 = insert (getName F) (FuncNameSet P)" and
    st3: "distinct_trimmed_lines (content (status fs1)) = trim ` FuncNameSet P1 - {[]}"
    by (elim exE conjE) (rule that)
  from Cons.IH [OF rest st12 st3] obtain rs1 P2 fs2 where
    rw: "run_writes calls P1 fs1 = Inr (rs1, P2, fs2)" and
    ih: "status fs2 \<noteq> OtherFile"
      "FuncNameSet P2 = FuncNameSet P1 \<union> (getName \<circ> snd) ` set calls"
      "distinct_trimmed_lines (content (status fs2)) = trim ` FuncNameSet P2 - {[]}"
    by (elim exE conjE) (rule that)
  from w rw have 1: "run_writes (call # calls) P fs = Inr (r # rs1, P2, fs2)"
    by (simp add: call)
  from ih(2) n1 have
    2: "FuncNameSet P2 = FuncNameSet P \<union> (getName \<circ> snd) ` set (call # calls)"
    by (auto simp: call)
  show ?case
    by (intro exI conjI) (rule 1 ih(1) 2 ih(3))+
qed

lemma load_reads_names:
  assumes "\<not> isDeclaration G" "FuncNameSet Q = {}" "fs \<noteq> OtherFile"
    and "LoadPreserveNoneList True Q fs G = (changed, Q', G')"
  shows "FuncNameSet Q' = distinct_trimmed_lines (content fs)"
proof -
  have "trim [] = []"
    by (simp add: trim_def ltrim_def rtrim_def)
  then have "distinct_trimmed_lines [] = {}"
    by (simp add: distinct_trimmed_lines_def)
  with load_first_read [OF assms(1,2,4)] assms(3) show ?thesis
    by (cases fs) (simp_all add: getFile_def content_def)
qed

lemma trim_newline_name:
  "trim (''a'' @ [CHR 0x0A] @ ''b'') = ''a'' @ [CHR 0x0A] @ ''b''"
  "trim ''a'' = ''a''" "trim ''b'' = ''b''" "trim [] = []"
  by (simp_all add: trim_def ltrim_def rtrim_def whitespace_def)

text \<open>
  Claim C3 as stated fails for a name that holds a newline and for the empty name of an
  unnamed function. The writer appends the name as it is. The name \<open>a\<close>, newline,
  \<open>b\<close> has no whitespace at either end, so trimming leaves it as it is; it fills two
  lines of the file, and the loader reads the two names \<open>a\<close> and \<open>b\<close>, neither of
  which was written, and gives the attribute to a function \<open>a\<close>. The empty name
  leaves an empty line, which the loader drops, so the name set stays empty.
\<close>

theorem round_trip_loses_newline_and_empty_names:
  "run_writes [(calls_ok, local_function (''a'' @ [CHR 0x0A] @ ''b'') C [])]
       fresh_pass (untouched NoFile) =
     Inr ([True], \<lparr>FD = 3, FuncNameSet = {''a'' @ [CHR 0x0A] @ ''b''}\<rparr>,
          \<lparr>status = RegularFile (''a'' @ [CHR 0x0A] @ ''b'' @ [CHR 0x0A]), lock_held = False,
           writes = [(''a'' @ [CHR 0x0A] @ ''b'' @ [CHR 0x0A], False)]\<rparr>) \<and>
   LoadPreserveNoneList True fresh_pass
       (RegularFile (''a'' @ [CHR 0x0A] @ ''b'' @ [CHR 0x0A])) (local_function ''a'' C []) =
     (True, \<lparr>FD = 0, FuncNameSet = {''a'', ''b''}\<rparr>,
      addFnAttr ''no_callee_saved_registers'' ''1'' (local_function ''a'' C [])) \<and>
   trim (''a'' @ [CHR 0x0A] @ ''b'') = ''a'' @ [CHR 0x0A] @ ''b'' \<and>
   {''a'', ''b''} \<noteq> {''a'' @ [CHR 0x0A] @ ''b''} \<and>
   run_writes [(calls_ok, local_function [] C [])] fresh_pass (untouched NoFile) =
     Inr ([True], \<lparr>FD = 3, FuncNameSet = {[]}\<rparr>,
          \<lparr>status = RegularFile [CHR 0x0A], lock_held = False,
           writes = [([CHR 0x0A], False)]\<rparr>) \<and>
   LoadPreserveNoneList True fresh_pass (RegularFile [CHR 0x0A]) (local_function [] C []) =
     (False, \<lparr>FD = 0, FuncNameSet = {}\<rparr>, local_function [] C [])"
proof -
  have 1: "run_writes [(calls_ok, local_function (''a'' @ [CHR 0x0A] @ ''b'') C [])]
       fresh_pass (untouched NoFile) =
     Inr ([True], \<lparr>FD = 3, FuncNameSet = {''a'' @ [CHR 0x0A] @ ''b''}\<rparr>,
          \<lparr>status = RegularFile (''a'' @ [CHR 0x0A] @ ''b'' @ [CHR 0x0A]), lock_held = False,
           writes = [(''a'' @ [CHR 0x0A] @ ''b'' @ [CHR 0x0A], False)]\<rparr>)"
    by (simp add: WritePreserveNoneList_def registry_defs)
  have 2: "LoadPreserveNoneList True fresh_pass
       (RegularFile (''a'' @ [CHR 0x0A] @ ''b'' @ [CHR 0x0A])) (local_function ''a'' C []) =
     (True, \<lparr>FD = 0, FuncNameSet = {''a'', ''b''}\<rparr>,
      addFnAttr ''no_callee_saved_registers'' ''1'' (local_function ''a'' C []))"
    by (simp add: LoadPreserveNoneList_def fresh_pass_def getFile_def exists_file_def
        is_regular_file_def insert_line_def trim_newline_name)
      (auto simp: local_function_def)
  have 3: "trim (''a'' @ [CHR 0x0A] @ ''b'') = ''a'' @ [CHR 0x0A] @ ''b''"
    by (rule trim_newline_name)
  have 4: "{''a'', ''b''} \<noteq> {''a'' @ [CHR 0x0A] @ ''b''}"
    by auto
  have 5: "run_writes [(calls_ok, local_function [] C [])] fresh_pass (untouched NoFile) =
     Inr ([True], \<lparr>FD = 3, FuncNameSet = {[]}\<rparr>,
          \<lparr>status = RegularFile [CHR 0x0A], lock_held = False,
           writes = [([CHR 0x0A], False)]\<rparr>)"
    by (simp add: WritePreserveNoneList_def registry_defs)
  have 6: "LoadPreserveNoneList True fresh_pass (RegularFile [CHR 0x0A])
       (local_function [] C []) =
     (False, \<lparr>FD = 0, FuncNameSet = {}\<rparr>, local_function [] C [])"
    by (simp add: LoadPreserveNoneList_def fresh_pass_def getFile_def exists_file_def
        is_regular_file_def insert_line_def trim_newline_name local_function_def)
  from 1 2 3 4 5 6 show ?thesis
    by simp
qed

text \<open>
  Claim C3 (registry round trip), amended: let definitions whose names hold no newline
  be written in any order and any number of times by a writer that starts with an empty
  name set on a file that is absent or empty, with every system call succeeding. Then
  the writer returns from every invocation, and a loader with an empty name set, invoked
  for a definition on the file the writer left, has in its name set exactly the trimmed
  names of those functions, without the empty one. The result is a set of trimmed
  names, so it depends neither on the order of the writes, nor on repetitions, nor on
  whitespace around a name.
\<close>

theorem registry_round_trip:
  assumes "list_all clean_write calls"
    and "FuncNameSet P = {}" "status fs = NoFile \<or> status fs = RegularFile []"
    and "\<not> isDeclaration G" "FuncNameSet Q = {}"
  shows "\<exists>rs P' fs'. run_writes calls P fs = Inr (rs, P', fs') \<and>
           FuncNameSet (fst (snd (LoadPreserveNoneList True Q (status fs') G))) =
             trim ` (getName \<circ> snd) ` set calls - {[]}"
proof -
  from assms(3) have fs: "status fs \<noteq> OtherFile"
    "content (status fs) = [] \<or> last (content (status fs)) = CHR 0x0A"
    by (auto simp: content_def)
  from assms(3) have "content (status fs) = []"
    by (auto simp: content_def)
  moreover have "trim [] = []"
    by (simp add: trim_def ltrim_def rtrim_def)
  ultimately have "distinct_trimmed_lines (content (status fs)) = {}"
    by (simp add: distinct_trimmed_lines_def)
  with assms(2) have e: "distinct_trimmed_lines (content (status fs)) = trim ` FuncNameSet P - {[]}"
    by simp
  from run_writes_names [OF assms(1) fs e] obtain rs P' fs' where
    rw: "run_writes calls P fs = Inr (rs, P', fs')" and
    ok: "status fs' \<noteq> OtherFile" and
    n: "FuncNameSet P' = FuncNameSet P \<union> (getName \<circ> snd) ` set calls" and
    d: "distinct_trimmed_lines (content (status fs')) = trim ` FuncNameSet P' - {[]}"
    by (elim exE conjE) (rule that)
  from n assms(2) have "FuncNameSet P' = (getName \<circ> snd) ` set calls"
    by simp
  with d ok have
    r: "status fs' \<noteq> OtherFile"
      "distinct_trimmed_lines (content (status fs')) = trim ` (getName \<circ> snd) ` set calls - {[]}"
    by simp_all
  obtain changed Q' G' where
    l: "LoadPreserveNoneList True Q (status fs') G = (changed, Q', G')"
    by (cases "LoadPreserveNoneList True Q (status fs') G")
  from load_reads_names [OF assms(4,5) r(1) l] r(2) l have
    "FuncNameSet (fst (snd (LoadPreserveNoneList True Q (status fs') G))) =
       trim ` (getName \<circ> snd) ` set calls - {[]}"
    by simp
  with rw show ?thesis by blast
qed

text \<open>
  The theorem at the functions \<open>f\<close> with a space behind it, \<open>g\<close>, and \<open>f\<close>: the
  writer takes the first and the third for different names, and the loader reads one.
\<close>

theorem registry_round_trip_witness:
  "list_all clean_write
     [(calls_ok, local_function ''f '' C []), (calls_ok, local_function ''g'' C []),
      (calls_ok, local_function ''f'' C [])] \<and>
   run_writes
       [(calls_ok, local_function ''f '' C []), (calls_ok, local_function ''g'' C []),
        (calls_ok, local_function ''f'' C [])]
       fresh_pass (untouched NoFile) =
     Inr ([True, True, True], \<lparr>FD = 3, FuncNameSet = {''f'', ''g'', ''f ''}\<rparr>,
          \<lparr>status = RegularFile (''f '' @ [CHR 0x0A] @ ''g'' @ [CHR 0x0A] @ ''f'' @ [CHR 0x0A]),
           lock_held = False,
           writes = [(''f '' @ [CHR 0x0A], False), (''g'' @ [CHR 0x0A], False),
                     (''f'' @ [CHR 0x0A], False)]\<rparr>) \<and>
   FuncNameSet (fst (snd (LoadPreserveNoneList True fresh_pass
       (RegularFile (''f '' @ [CHR 0x0A] @ ''g'' @ [CHR 0x0A] @ ''f'' @ [CHR 0x0A]))
       (local_function ''g'' C [])))) = {''f'', ''g''} \<and>
   trim ` (getName \<circ> snd) `
       set [(calls_ok, local_function ''f '' C []), (calls_ok, local_function ''g'' C []),
            (calls_ok, local_function ''f'' C [])] - {[]} = {''f'', ''g''}"
proof -
  let ?calls = "[(calls_ok, local_function ''f '' C []), (calls_ok, local_function ''g'' C []),
      (calls_ok, local_function ''f'' C [])]"
  have t: "trim ''f '' = ''f''" "trim ''f'' = ''f''" "trim ''g'' = ''g''" "trim [] = []"
    by (simp_all add: trim_def ltrim_def rtrim_def whitespace_def)
  have cw: "list_all clean_write ?calls"
    by (simp add: clean_write_def all_calls_succeed_def calls_ok_def local_function_def)
  have rw: "run_writes ?calls fresh_pass (untouched NoFile) =
     Inr ([True, True, True], \<lparr>FD = 3, FuncNameSet = {''f'', ''g'', ''f ''}\<rparr>,
          \<lparr>status = RegularFile (''f '' @ [CHR 0x0A] @ ''g'' @ [CHR 0x0A] @ ''f'' @ [CHR 0x0A]),
           lock_held = False,
           writes = [(''f '' @ [CHR 0x0A], False), (''g'' @ [CHR 0x0A], False),
                     (''f'' @ [CHR 0x0A], False)]\<rparr>)"
    by (simp add: WritePreserveNoneList_def registry_defs)
  have n: "trim ` (getName \<circ> snd) ` set ?calls - {[]} = {''f'', ''g''}"
    by (auto simp: local_function_def t)
  have d: "\<not> isDeclaration (local_function ''g'' C [])"
    by (simp add: local_function_def)
  have e: "FuncNameSet fresh_pass = {}"
    by (simp add: fresh_pass_def)
  have s: "status (untouched NoFile) = NoFile \<or> status (untouched NoFile) = RegularFile []"
    by (simp add: untouched_def)
  from registry_round_trip [OF cw e s d e] rw n have
    "FuncNameSet (fst (snd (LoadPreserveNoneList True fresh_pass
       (RegularFile (''f '' @ [CHR 0x0A] @ ''g'' @ [CHR 0x0A] @ ''f'' @ [CHR 0x0A]))
       (local_function ''g'' C [])))) = {''f'', ''g''}"
    by simp
  with cw rw n show ?thesis
    by simp
qed

end
